theory Spec2Isabelle
  imports Main "HOL-Library.AList"
begin

section \<open>The identity cache: class StoredMessages of src/index.ts\<close>

text \<open>
  A message id and a user id are JavaScript numbers that the platform delivers as
  integers; they are modelled as \<open>int\<close>. A \<open>Map<number, V>\<close> is modelled as an
  association list in insertion order: \<open>Map.set\<close> is \<open>AList.update\<close> (an existing key
  keeps its place, a new key is appended), \<open>Map.get\<close> is \<open>map_of\<close>, \<open>Map.size\<close> is
  \<open>length\<close> and \<open>Map.clear\<close> leaves the empty list.
\<close>

record StoredMessage =
  id_msg :: int
  author :: int

type_synonym generation = "(int \<times> StoredMessage) list"

record StoredMessages =
  threshold :: nat
  data :: "generation list"
  currentIndex :: nat
  otherIndex :: nat

definition new_StoredMessages :: StoredMessages where
  "new_StoredMessages =
     \<lparr>threshold = 200, data = [[], []], currentIndex = 0, otherIndex = 1\<rparr>"

definition current :: "StoredMessages \<Rightarrow> generation" where
  "current s = data s ! currentIndex s"

definition other :: "StoredMessages \<Rightarrow> generation" where
  "other s = data s ! otherIndex s"

text \<open>The test \<open>this.current.size > this.threshold\<close> at the start of \<open>add\<close>.\<close>

definition rotates :: "StoredMessages \<Rightarrow> bool" where
  "rotates s = (length (current s) > threshold s)"

text \<open>The body of the \<open>if\<close>: the two indices are swapped, then the new current is cleared.\<close>

definition rotate :: "StoredMessages \<Rightarrow> StoredMessages" where
  "rotate s =
     (let s' = s\<lparr>currentIndex := otherIndex s, otherIndex := currentIndex s\<rparr>
      in s'\<lparr>data := (data s')[currentIndex s' := []]\<rparr>)"

definition add :: "int \<Rightarrow> StoredMessage \<Rightarrow> StoredMessages \<Rightarrow> StoredMessages" where
  "add original translated s =
     (let s1 = (if rotates s then rotate s else s)
      in s1\<lparr>data := (data s1)[currentIndex s1 :=
                 AList.update original translated (current s1)]\<rparr>)"

text \<open>
  \<open>this.current.get(messageId) || this.other.get(messageId)\<close>: a stored value is an
  object, hence truthy, so \<open>||\<close> falls through exactly on a missing key.
\<close>

definition translate :: "StoredMessages \<Rightarrow> int \<Rightarrow> StoredMessage option" where
  "translate s messageId =
     (case map_of (current s) messageId of
        Some v \<Rightarrow> Some v
      | None \<Rightarrow> map_of (other s) messageId)"

text \<open>A sequence of \<open>add\<close> calls, earliest first.\<close>

fun adds :: "(int \<times> StoredMessage) list \<Rightarrow> StoredMessages \<Rightarrow> StoredMessages" where
  "adds [] s = s"
| "adds ((k, v) # ops) s = adds ops (add k v s)"

text \<open>The keys for which \<open>translate\<close> returns a value.\<close>

definition reachable :: "StoredMessages \<Rightarrow> int set" where
  "reachable s = {k. translate s k \<noteq> None}"

text \<open>
  The shape every cache has: two generations, the two indices are 0 and 1 in some order,
  and no generation holds more than \<open>threshold + 1\<close> entries.
\<close>

definition cache_ok :: "StoredMessages \<Rightarrow> bool" where
  "cache_ok s =
     (length (data s) = 2 \<and> currentIndex s < 2 \<and> otherIndex s < 2 \<and>
      currentIndex s \<noteq> otherIndex s \<and>
      length (current s) \<le> threshold s + 1 \<and> length (other s) \<le> threshold s + 1)"

section \<open>The relay: the GroupMessage handler of src/index.ts\<close>

text \<open>
  A segment of a message chain. Only the fields that the handler reads are kept: the id
  of the \<open>Source\<close> segment, the id of a \<open>Quote\<close>, the target and the display text of an
  \<open>At\<close>, the text of a \<open>Plain\<close>. Every other kind of segment is opaque to the handler
  and passes through it unchanged.
\<close>

datatype SingleMessage =
    Source int
  | is_Quote: Quote int
  | is_At: At int string
  | Plain string
  | Other string

text \<open>
  One element of \<open>groups\<close>: the group number, the member snapshot (user id to name) and
  the identity cache. The handler only tests membership and looks names up in
  \<open>members\<close>, so that map is a partial function.
\<close>

record Group =
  group :: int
  members :: "int \<rightharpoonup> string"
  stored :: StoredMessages

text \<open>
  What the handler reads of an inbound event: \<open>msg.sender.group.id\<close>, \<open>msg.sender.id\<close>
  and \<open>msg.messageChain\<close>.
\<close>

record GroupMessage =
  sender_group :: int
  sender_id :: int
  messageChain :: "SingleMessage list"

datatype error = TypeError

text \<open>
  The callback of \<open>msg.messageChain.filter\<close>, with its two captured variables \<open>quote\<close>
  and \<open>atMeCounter\<close> threaded through the traversal. It returns the segments that were
  kept and the final value of \<open>quote\<close>.
\<close>

fun filter_chain ::
  "int \<Rightarrow> StoredMessages \<Rightarrow> StoredMessage option \<Rightarrow> nat \<Rightarrow> SingleMessage list
     \<Rightarrow> SingleMessage list \<times> StoredMessage option" where
  "filter_chain qq stored' quote atMeCounter [] = ([], quote)"
| "filter_chain qq stored' quote atMeCounter (At target display # xs) =
     (if quote \<noteq> None \<and> target = qq
      then (let (ys, q) = filter_chain qq stored' quote (atMeCounter + 1) xs
            in (if atMeCounter = 0 then At target display # ys else ys, q))
      else (let (ys, q) = filter_chain qq stored' quote atMeCounter xs
            in (At target display # ys, q)))"
| "filter_chain qq stored' quote atMeCounter (Quote i # xs) =
     filter_chain qq stored'
       (case translate stored' i of Some v \<Rightarrow> Some v | None \<Rightarrow> quote) atMeCounter xs"
| "filter_chain qq stored' quote atMeCounter (x # xs) =
     (let (ys, q) = filter_chain qq stored' quote atMeCounter xs in (x # ys, q))"

text \<open>
  The loop \<open>for (const members of searchFrom)\<close>: \<open>name\<close> starts as the display text of
  the mention and is replaced by the first truthy \<open>members.get(x.target)\<close>; an empty
  string is falsy in JavaScript, so an empty name does not stop the search.
\<close>

fun search_name :: "(int \<rightharpoonup> string) list \<Rightarrow> int \<Rightarrow> string \<Rightarrow> string" where
  "search_name [] target name = name"
| "search_name (m # ms) target name =
     (case m target of
        Some match \<Rightarrow> if match \<noteq> [] then match else search_name ms target name
      | None \<Rightarrow> search_name ms target name)"

definition searchFrom ::
  "(int \<rightharpoonup> string) \<Rightarrow> Group option \<Rightarrow> Group list \<Rightarrow> (int \<rightharpoonup> string) list" where
  "searchFrom members' originalGroup groups =
     (case originalGroup of
        Some og \<Rightarrow> [members', members og]
      | None \<Rightarrow> [members']) @ map members groups"

text \<open>
  The callback of the following \<open>.map\<close>. \<open>quote?.author || qq\<close> yields \<open>qq\<close> when there
  is no quote and also when the author is 0, which is falsy. \<open>x.target !== quote?.author\<close>
  is true when there is no quote, since a number is never \<open>undefined\<close>.
\<close>

definition rewrite_segment ::
  "int \<Rightarrow> StoredMessage option \<Rightarrow> (int \<rightharpoonup> string) \<Rightarrow> Group option \<Rightarrow> Group list
     \<Rightarrow> SingleMessage \<Rightarrow> SingleMessage" where
  "rewrite_segment qq quote members' originalGroup groups x =
     (case x of
        At target display \<Rightarrow>
          (let target' =
                 (if target = qq
                  then (case quote of
                          Some q \<Rightarrow> if author q \<noteq> 0 then author q else qq
                        | None \<Rightarrow> qq)
                  else target)
           in if (case quote of Some q \<Rightarrow> target' \<noteq> author q | None \<Rightarrow> True)
                 \<or> members' target' = None
              then Plain (CHR ''@'' #
                     search_name (searchFrom members' originalGroup groups) target' display)
              else At target' display)
      | _ \<Rightarrow> x)"

text \<open>The value of \<open>processed\<close> and the final \<open>quote\<close> for the destination group \<open>g\<close>.\<close>

definition process_chain ::
  "int \<Rightarrow> Group option \<Rightarrow> Group list \<Rightarrow> Group \<Rightarrow> SingleMessage list
     \<Rightarrow> SingleMessage list \<times> StoredMessage option" where
  "process_chain qq originalGroup groups g chain =
     (let (kept, quote) = filter_chain qq (stored g) None 0 chain
      in (map (rewrite_segment qq quote (members g) originalGroup groups) kept, quote))"

text \<open>
  The groups are objects that the handler mutates in place, so a group is named by its
  position in \<open>groups\<close>. A call of \<open>mirai.api.sendGroupMessage\<close> is recorded as the
  position of the destination together with the three arguments
  \<open>(processed, group, quote?.id)\<close>. The platform is a parameter: a call either
  resolves with a sent id or throws a value. Of a thrown value the handler only needs to
  know what its \<open>catch\<close> block asks of it: whether it is \<open>null\<close>, \<open>undefined\<close>, or
  another value, and for another value whether \<open>JSON.stringify\<close> accepts it.
\<close>

type_synonym send_call = "nat \<times> SingleMessage list \<times> int \<times> int option"

datatype thrown = ThrownNull | ThrownUndefined | ThrownValue bool

datatype send_result = Sent int | Threw thrown

type_synonym send_oracle =
  "nat \<Rightarrow> SingleMessage list \<Rightarrow> int \<Rightarrow> int option \<Rightarrow> send_result"

text \<open>\<open>groups.find(({ group }) => group === fromGroup)\<close>, as a position.\<close>

definition originalIndex :: "int \<Rightarrow> Group list \<Rightarrow> nat option" where
  "originalIndex fromGroup groups =
     find (\<lambda>i. group (groups ! i) = fromGroup) [0 ..< length groups]"

text \<open>\<open>groups.filter(({ group }) => group !== fromGroup)\<close>, as positions.\<close>

definition targets :: "int \<Rightarrow> Group list \<Rightarrow> nat list" where
  "targets fromGroup groups =
     filter (\<lambda>i. group (groups ! i) \<noteq> fromGroup) [0 ..< length groups]"

definition send_call ::
  "int \<Rightarrow> Group option \<Rightarrow> Group list \<Rightarrow> SingleMessage list \<Rightarrow> nat \<Rightarrow> send_call" where
  "send_call qq originalGroup groups chain i =
     (let g = groups ! i;
          (processed, quote) = process_chain qq originalGroup groups g chain
      in (i, processed, group g, map_option id_msg quote))"

text \<open>
  The \<open>catch\<close> block evaluates
  \<open>`${JSON.stringify(e)}; type = ${typeof e}; ${e.constructor?.name}`\<close> and writes it to
  the log. \<open>JSON.stringify\<close> accepts \<open>null\<close> and \<open>undefined\<close>, but the read of
  \<open>e.constructor\<close> throws a TypeError for them (the \<open>?.\<close> guards only the read of
  \<open>name\<close>); for another value the block completes when \<open>JSON.stringify\<close> does.
\<close>

definition warn_completes :: "thrown \<Rightarrow> bool" where
  "warn_completes e =
     (case e of
        ThrownNull \<Rightarrow> False
      | ThrownUndefined \<Rightarrow> False
      | ThrownValue serialisable \<Rightarrow> serialisable)"

text \<open>
  The inner \<open>try\<close>/\<open>catch\<close>, that is the promise of one destination: a successful send
  fulfils it with \<open>{ sentId, targetStorage }\<close>; a failed one that the \<open>catch\<close> block can
  log fulfils it with \<open>undefined\<close>; when the \<open>catch\<close> block throws, the promise
  rejects.
\<close>

definition relay_to :: "send_oracle \<Rightarrow> send_call \<Rightarrow> error + (int \<times> nat) option" where
  "relay_to send c =
     (case c of (i, processed, group', quoteId) \<Rightarrow>
        (case send i processed group' quoteId of
           Sent sentId \<Rightarrow> Inr (Some (sentId, i))
         | Threw e \<Rightarrow> if warn_completes e then Inr None else Inl TypeError))"

text \<open>\<open>Promise.all\<close>: fulfilled with all the values, or rejected as soon as one promise is.\<close>

fun promise_all :: "(error + 'a) list \<Rightarrow> error + 'a list" where
  "promise_all [] = Inr []"
| "promise_all (Inl e # ps) = Inl e"
| "promise_all (Inr x # ps) =
     (case promise_all ps of Inl e \<Rightarrow> Inl e | Inr xs \<Rightarrow> Inr (x # xs))"

text \<open>\<open>groups[i].stored.add(k, v)\<close>.\<close>

definition store_add :: "nat \<Rightarrow> int \<Rightarrow> StoredMessage \<Rightarrow> Group list \<Rightarrow> Group list" where
  "store_add i k v groups = groups[i := (groups ! i)\<lparr>stored := add k v (stored (groups ! i))\<rparr>]"

text \<open>The loop \<open>for (const other of others)\<close>.\<close>

fun record_others ::
  "nat \<Rightarrow> StoredMessage \<Rightarrow> (int \<times> nat) list \<Rightarrow> Group list \<Rightarrow> Group list" where
  "record_others t v [] groups = groups"
| "record_others t v ((otherSentId, u) # others) groups =
     record_others t v others (store_add t otherSentId v groups)"

text \<open>The loop \<open>for (const { sentId, targetStorage } of results)\<close>.\<close>

fun record_mappings ::
  "int \<Rightarrow> int \<Rightarrow> nat option \<Rightarrow> (int \<times> nat) list \<Rightarrow> (int \<times> nat) list \<Rightarrow> Group list
     \<Rightarrow> Group list" where
  "record_mappings messageId messageAuthor orig results [] groups = groups"
| "record_mappings messageId messageAuthor orig results ((sentId, t) # rest) groups =
     (let others = filter (\<lambda>other. snd other \<noteq> t) results;
          g1 = record_others t \<lparr>id_msg = sentId, author = messageAuthor\<rparr> others groups;
          g2 = store_add t messageId \<lparr>id_msg = sentId, author = messageAuthor\<rparr> g1;
          g3 = (case orig of
                  Some oi \<Rightarrow>
                    store_add oi sentId \<lparr>id_msg = messageId, author = messageAuthor\<rparr> g2
                | None \<Rightarrow> g2)
      in record_mappings messageId messageAuthor orig results rest g3)"

text \<open>
  The calls of \<open>sendGroupMessage\<close> that the handler makes, one for each destination in
  the order of \<open>groups\<close>. Each callback of the \<open>.map\<close> runs up to its \<open>await\<close> before the
  next one starts, and no cache is written before \<open>Promise.all\<close> has settled, so every
  call is computed from the state in which the handler started.
\<close>

definition send_calls :: "int \<Rightarrow> Group list \<Rightarrow> GroupMessage \<Rightarrow> send_call list" where
  "send_calls qq groups msg =
     map (send_call qq (map_option (nth groups) (originalIndex (sender_group msg) groups))
            groups (messageChain msg))
         (targets (sender_group msg) groups)"

text \<open>
  \<open>(await Promise.all(promises)).filter(x => x !== undefined)\<close>. When \<open>Promise.all\<close>
  rejects there is no such list and the handler does not get to use one; the model gives
  the empty list then.
\<close>

definition results ::
  "int \<Rightarrow> send_oracle \<Rightarrow> Group list \<Rightarrow> GroupMessage \<Rightarrow> (int \<times> nat) list" where
  "results qq send groups msg =
     (case promise_all (map (relay_to send) (send_calls qq groups msg)) of
        Inr settled \<Rightarrow> List.map_filter (\<lambda>x. x) settled
      | Inl e \<Rightarrow> [])"

text \<open>
  The handler. A message from a group that is not configured is ignored. The platform
  puts the \<open>Source\<close> segment first and the handler reads its id as
  \<open>msg.messageChain[0].id\<close>; on an empty chain that read throws a TypeError. A chain that
  starts with another segment is not one that the platform delivers; the code would go on
  with whatever \<open>id\<close> that segment has, and the model does not follow it there but
  answers with the error value. When \<open>Promise.all\<close> rejects, the handler leaves the
  \<open>try\<close> block before the recording loop and rejects as well. Otherwise it returns the
  groups with their caches updated and the calls of \<open>sendGroupMessage\<close> that it made.
  The log and the mutex around the handler are not modelled.
\<close>

definition on_GroupMessage ::
  "int \<Rightarrow> send_oracle \<Rightarrow> Group list \<Rightarrow> GroupMessage
     \<Rightarrow> error + (Group list \<times> send_call list)" where
  "on_GroupMessage qq send groups msg =
     (case originalIndex (sender_group msg) groups of
        None \<Rightarrow> Inr (groups, [])
      | Some oi \<Rightarrow>
          (case messageChain msg of
             Source messageId # _ \<Rightarrow>
               (case promise_all (map (relay_to send) (send_calls qq groups msg)) of
                  Inl e \<Rightarrow> Inl e
                | Inr settled \<Rightarrow>
                    Inr (record_mappings messageId (sender_id msg) (Some oi)
                           (results qq send groups msg) (results qq send groups msg) groups,
                         send_calls qq groups msg))
           | _ \<Rightarrow> Inl TypeError))"

text \<open>
  The groups after the handler has run. Only the recording loop writes to a cache, so a
  handler that threw or rejected leaves the groups as they were.
\<close>

definition groups_after :: "int \<Rightarrow> send_oracle \<Rightarrow> Group list \<Rightarrow> GroupMessage \<Rightarrow> Group list" where
  "groups_after qq send groups msg =
     (case on_GroupMessage qq send groups msg of
        Inr (groups', calls) \<Rightarrow> groups'
      | Inl e \<Rightarrow> groups)"

section \<open>Notions used to state the properties\<close>

text \<open>
  No \<open>add\<close> of the sequence finds the current generation over the threshold: the
  sequence runs without a rotation.
\<close>

fun rotation_free :: "(int \<times> StoredMessage) list \<Rightarrow> StoredMessages \<Rightarrow> bool" where
  "rotation_free [] s = True"
| "rotation_free ((k, v) # ops) s = (\<not> rotates s \<and> rotation_free ops (add k v s))"

text \<open>
  The values that the quote segments of a chain resolve to in the cache \<open>c\<close>, in the
  order of the chain, and the last of them.
\<close>

definition resolved_quotes :: "StoredMessages \<Rightarrow> SingleMessage list \<Rightarrow> StoredMessage list" where
  "resolved_quotes c chain =
     List.map_filter (\<lambda>x. case x of Quote i \<Rightarrow> translate c i | _ \<Rightarrow> None) chain"

definition last_resolved :: "StoredMessages \<Rightarrow> SingleMessage list \<Rightarrow> StoredMessage option" where
  "last_resolved c chain =
     (case resolved_quotes c chain of [] \<Rightarrow> None | v # vs \<Rightarrow> Some (last (v # vs)))"

text \<open>A mention of the relay's own account, and a quote segment that the cache resolves.\<close>

definition is_self :: "int \<Rightarrow> SingleMessage \<Rightarrow> bool" where
  "is_self qq x = (case x of At target display \<Rightarrow> target = qq | _ \<Rightarrow> False)"

definition resolves :: "StoredMessages \<Rightarrow> SingleMessage \<Rightarrow> bool" where
  "resolves c x = (case x of Quote i \<Rightarrow> translate c i \<noteq> None | _ \<Rightarrow> False)"

text \<open>
  The rule for mentions in the words of the specification: a mention of the relay itself
  is retargeted to the author of the quoted message; a mention is live when its target is
  that author and a member of the destination group; any other mention becomes the text
  \<open>@name\<close>, the name being the first one found for the user, searching the
  destination group, then the source group, then the other configured groups, and the
  display text of the mention when none is found. \<open>first_match\<close> takes the name of the
  first snapshot that knows the user, whatever that name is; \<open>first_nonempty_name\<close>
  passes over empty names.
\<close>

definition first_match :: "(int \<rightharpoonup> string) list \<Rightarrow> int \<Rightarrow> string \<Rightarrow> string" where
  "first_match snapshots u display =
     (case List.map_filter (\<lambda>m. m u) snapshots of [] \<Rightarrow> display | name # _ \<Rightarrow> name)"

definition first_nonempty_name ::
  "(int \<rightharpoonup> string) list \<Rightarrow> int \<Rightarrow> string \<Rightarrow> string" where
  "first_nonempty_name snapshots u display =
     (case filter (\<lambda>name. name \<noteq> []) (List.map_filter (\<lambda>m. m u) snapshots) of
        [] \<Rightarrow> display
      | name # _ \<Rightarrow> name)"

definition retargeted :: "int \<Rightarrow> StoredMessage option \<Rightarrow> int \<Rightarrow> int" where
  "retargeted qq quote target =
     (if target = qq then (case quote of Some q \<Rightarrow> author q | None \<Rightarrow> qq) else target)"

definition author_nonzero :: "StoredMessage option \<Rightarrow> bool" where
  "author_nonzero quote = (case quote of Some q \<Rightarrow> author q \<noteq> 0 | None \<Rightarrow> True)"

definition live_mention :: "StoredMessage option \<Rightarrow> (int \<rightharpoonup> string) \<Rightarrow> int \<Rightarrow> bool" where
  "live_mention quote dest u =
     (case quote of Some q \<Rightarrow> u = author q \<and> dest u \<noteq> None | None \<Rightarrow> False)"

definition other_groups :: "nat \<Rightarrow> nat \<Rightarrow> Group list \<Rightarrow> Group list" where
  "other_groups i oi groups =
     map (nth groups) (filter (\<lambda>j. j \<noteq> i \<and> j \<noteq> oi) [0 ..< length groups])"

definition mention_rule ::
  "int \<Rightarrow> StoredMessage option \<Rightarrow> (int \<rightharpoonup> string) \<Rightarrow> (int \<rightharpoonup> string)
     \<Rightarrow> (int \<rightharpoonup> string) list \<Rightarrow> SingleMessage \<Rightarrow> SingleMessage" where
  "mention_rule qq quote dest src others x =
     (case x of
        At target display \<Rightarrow>
          (if live_mention quote dest (retargeted qq quote target)
           then At (retargeted qq quote target) display
           else Plain (CHR ''@'' #
                  first_nonempty_name (dest # src # others) (retargeted qq quote target)
                    display))
      | _ \<Rightarrow> x)"

text \<open>No snapshot of the configuration holds an empty name.\<close>

definition names_nonempty :: "Group list \<Rightarrow> bool" where
  "names_nonempty groups = list_all (\<lambda>g. \<forall>u. members g u \<noteq> Some []) groups"

definition hit :: "(int \<rightharpoonup> string) \<Rightarrow> int \<Rightarrow> bool" where
  "hit m t = (case m t of Some n \<Rightarrow> n \<noteq> [] | None \<Rightarrow> False)"

text \<open>The successful send of a call, if it is one.\<close>

definition sent_by :: "send_oracle \<Rightarrow> send_call \<Rightarrow> (int \<times> nat) option" where
  "sent_by send c = (case relay_to send c of Inr r \<Rightarrow> r | Inl e \<Rightarrow> None)"

text \<open>
  The entries that the recording loop adds to the cache of a successful destination
  \<open>t\<close> with sent id \<open>sentId\<close>, and to the cache of the source group.
\<close>

definition target_batch ::
  "int \<Rightarrow> int \<Rightarrow> (int \<times> nat) list \<Rightarrow> int \<Rightarrow> nat \<Rightarrow> (int \<times> StoredMessage) list" where
  "target_batch messageId messageAuthor rs sentId t =
     map (\<lambda>other. (fst other, \<lparr>id_msg = sentId, author = messageAuthor\<rparr>))
         (filter (\<lambda>other. snd other \<noteq> t) rs) @
     [(messageId, \<lparr>id_msg = sentId, author = messageAuthor\<rparr>)]"

definition source_batch :: "int \<Rightarrow> int \<Rightarrow> (int \<times> nat) list \<Rightarrow> (int \<times> StoredMessage) list" where
  "source_batch messageId messageAuthor rs =
     map (\<lambda>r. (fst r, \<lparr>id_msg = messageId, author = messageAuthor\<rparr>)) rs"

text \<open>The adds that one iteration of the recording loop makes on the cache of group \<open>j\<close>.\<close>

definition iteration_ops ::
  "int \<Rightarrow> int \<Rightarrow> nat \<Rightarrow> (int \<times> nat) list \<Rightarrow> nat \<Rightarrow> int \<times> nat
     \<Rightarrow> (int \<times> StoredMessage) list" where
  "iteration_ops m a oi rs j r =
     (if snd r = j then target_batch m a rs (fst r) (snd r) else []) @
     (if oi = j then [(fst r, \<lparr>id_msg = m, author = a\<rparr>)] else [])"

text \<open>Every cache of the configuration has the shape and the threshold of a cache in use.\<close>

definition groups_ok :: "Group list \<Rightarrow> bool" where
  "groups_ok groups = list_all (\<lambda>g. cache_ok (stored g) \<and> threshold (stored g) = 200) groups"

section \<open>Test data\<close>

text \<open>\<open>n\<close> cache entries with the consecutive keys \<open>k, k + 1, \<dots>\<close> and one value.\<close>

fun fresh :: "int \<Rightarrow> nat \<Rightarrow> StoredMessage \<Rightarrow> (int \<times> StoredMessage) list" where
  "fresh k 0 v = []"
| "fresh k (Suc n) v = (k, v) # fresh (k + 1) n v"

text \<open>
  A platform that answers the call for the destination at position \<open>i\<close> with the sent id
  \<open>n + i\<close>, and a platform whose call for position \<open>j\<close> throws the value \<open>e\<close>.
\<close>

definition sent_ids :: "int \<Rightarrow> send_oracle" where
  "sent_ids n i processed group' quoteId = Sent (n + int i)"

definition failing_at :: "nat \<Rightarrow> thrown \<Rightarrow> send_oracle \<Rightarrow> send_oracle" where
  "failing_at j e send i processed group' quoteId =
     (if i = j then Threw e else send i processed group' quoteId)"

text \<open>
  Three groups with new caches; user 1, named X, posts the text hi with message id 10 in
  the first of them; and the groups after that message was relayed with the sent ids 101
  and 102.
\<close>

definition example_groups :: "Group list" where
  "example_groups =
     [\<lparr>group = 1, members = [1 \<mapsto> ''X''], stored = new_StoredMessages\<rparr>,
      \<lparr>group = 2, members = Map.empty, stored = new_StoredMessages\<rparr>,
      \<lparr>group = 3, members = Map.empty, stored = new_StoredMessages\<rparr>]"

definition example_msg :: GroupMessage where
  "example_msg = \<lparr>sender_group = 1, sender_id = 1, messageChain = [Source 10, Plain ''hi'']\<rparr>"

definition example_relayed :: "Group list" where
  "example_relayed =
     [\<lparr>group = 1, members = [1 \<mapsto> ''X''],
        stored = adds [(101, \<lparr>id_msg = 10, author = 1\<rparr>),
                       (102, \<lparr>id_msg = 10, author = 1\<rparr>)] new_StoredMessages\<rparr>,
      \<lparr>group = 2, members = Map.empty,
        stored = adds [(102, \<lparr>id_msg = 101, author = 1\<rparr>),
                       (10, \<lparr>id_msg = 101, author = 1\<rparr>)] new_StoredMessages\<rparr>,
      \<lparr>group = 3, members = Map.empty,
        stored = adds [(101, \<lparr>id_msg = 102, author = 1\<rparr>),
                       (10, \<lparr>id_msg = 102, author = 1\<rparr>)] new_StoredMessages\<rparr>]"

text \<open>
  Four groups, and their state after the same message was relayed while the send to the
  third group failed and the failure was logged.
\<close>

definition four_groups :: "Group list" where
  "four_groups =
     [\<lparr>group = 1, members = [1 \<mapsto> ''X''], stored = new_StoredMessages\<rparr>,
      \<lparr>group = 2, members = Map.empty, stored = new_StoredMessages\<rparr>,
      \<lparr>group = 3, members = Map.empty, stored = new_StoredMessages\<rparr>,
      \<lparr>group = 4, members = Map.empty, stored = new_StoredMessages\<rparr>]"

definition four_relayed :: "Group list" where
  "four_relayed =
     [\<lparr>group = 1, members = [1 \<mapsto> ''X''],
        stored = adds [(101, \<lparr>id_msg = 10, author = 1\<rparr>),
                       (103, \<lparr>id_msg = 10, author = 1\<rparr>)] new_StoredMessages\<rparr>,
      \<lparr>group = 2, members = Map.empty,
        stored = adds [(103, \<lparr>id_msg = 101, author = 1\<rparr>),
                       (10, \<lparr>id_msg = 101, author = 1\<rparr>)] new_StoredMessages\<rparr>,
      \<lparr>group = 3, members = Map.empty, stored = new_StoredMessages\<rparr>,
      \<lparr>group = 4, members = Map.empty,
        stored = adds [(101, \<lparr>id_msg = 103, author = 1\<rparr>),
                       (10, \<lparr>id_msg = 103, author = 1\<rparr>)] new_StoredMessages\<rparr>]"

text \<open>
  Three groups after message 41 of user 5 in the second group was relayed into the first
  group as message 40 (the third group has not recorded it); then user 7 of the first
  group replies to message 40, with a mention of the relay and a mention of user 7.
\<close>

definition quoting_groups :: "Group list" where
  "quoting_groups =
     [\<lparr>group = 1, members = [7 \<mapsto> ''Ann''],
        stored = add 41 \<lparr>id_msg = 40, author = 5\<rparr> new_StoredMessages\<rparr>,
      \<lparr>group = 2, members = [5 \<mapsto> ''Bob''],
        stored = add 40 \<lparr>id_msg = 41, author = 5\<rparr> new_StoredMessages\<rparr>,
      \<lparr>group = 3, members = [7 \<mapsto> ''Annie''], stored = new_StoredMessages\<rparr>]"

definition quoting_msg :: GroupMessage where
  "quoting_msg =
     \<lparr>sender_group = 1, sender_id = 7,
      messageChain = [Source 10, Quote 40, At 99 ''relay'', At 7 ''ann'', Plain ''ok'']\<rparr>"

section \<open>Properties of the identity cache\<close>

lemma cache_ok_new: "cache_ok new_StoredMessages"
  by (simp add: cache_ok_def new_StoredMessages_def current_def other_def)

lemma threshold_add [simp]: "threshold (add k v s) = threshold s"
  by (simp add: add_def rotate_def Let_def)

lemma length_update_le: "length (AList.update k v al) \<le> Suc (length al)"
  by (induction al) auto

lemma current_add_rotating:
  assumes "cache_ok s" "rotates s"
  shows "current (add k v s) = [(k, v)]" "other (add k v s) = current s"
    "currentIndex (add k v s) = otherIndex s" "otherIndex (add k v s) = currentIndex s"
  using assms
  by (auto simp: add_def rotate_def Let_def current_def other_def cache_ok_def)

lemma current_add_plain:
  assumes "cache_ok s" "\<not> rotates s"
  shows "current (add k v s) = AList.update k v (current s)" "other (add k v s) = other s"
    "currentIndex (add k v s) = currentIndex s" "otherIndex (add k v s) = otherIndex s"
  using assms
  by (auto simp: add_def Let_def current_def other_def cache_ok_def)

lemma length_data_add [simp]: "length (data (add k v s)) = length (data s)"
  by (simp add: add_def rotate_def Let_def)

lemma cache_ok_add: "cache_ok s \<Longrightarrow> cache_ok (add k v s)"
proof (cases "rotates s")
  case True
  assume ok: "cache_ok s"
  show ?thesis
    unfolding cache_ok_def
    using current_add_rotating [OF ok True, of k v] ok
    by (simp add: cache_ok_def)
next
  case False
  assume ok: "cache_ok s"
  have "length (AList.update k v (current s)) \<le> threshold s + 1"
    using False length_update_le [of k v "current s"] by (simp add: rotates_def)
  then show ?thesis
    unfolding cache_ok_def
    using current_add_plain [OF ok False, of k v] ok
    by (simp add: cache_ok_def)
qed

lemma cache_ok_adds: "cache_ok s \<Longrightarrow> cache_ok (adds ops s)"
  by (induction ops s rule: adds.induct) (auto simp: cache_ok_add)

lemma threshold_adds [simp]: "threshold (adds ops s) = threshold s"
  by (induction ops s rule: adds.induct) auto

lemma translate_None_iff:
  "translate s k = None \<longleftrightarrow> k \<notin> fst ` set (current s) \<and> k \<notin> fst ` set (other s)"
proof -
  have "translate s k = None \<longleftrightarrow>
        map_of (current s) k = None \<and> map_of (other s) k = None"
    by (simp add: translate_def split: option.splits)
  then show ?thesis by (simp only: map_of_eq_None_iff)
qed

lemma reachable_keys: "reachable s = fst ` set (current s) \<union> fst ` set (other s)"
proof (rule set_eqI)
  fix k
  show "k \<in> reachable s \<longleftrightarrow> k \<in> fst ` set (current s) \<union> fst ` set (other s)"
    unfolding reachable_def mem_Collect_eq translate_None_iff Un_iff by simp
qed

lemma card_keys_le: "card (fst ` set al) \<le> length al"
proof -
  have "card (fst ` set al) \<le> card (set al)" by (rule card_image_le) simp
  also have "\<dots> \<le> length al" by (rule card_length)
  finally show ?thesis .
qed

lemma card_reachable_le:
  "card (reachable s) \<le> length (current s) + length (other s)"
proof -
  have "card (reachable s) \<le> card (fst ` set (current s)) + card (fst ` set (other s))"
    by (simp add: reachable_keys card_Un_le)
  then show ?thesis
    using card_keys_le [of "current s"] card_keys_le [of "other s"] by linarith
qed

lemma update_fresh_key: "k \<notin> fst ` set al \<Longrightarrow> AList.update k v al = al @ [(k, v)]"
  by (induction al) auto

lemma adds_append: "adds (xs @ ys) s = adds ys (adds xs s)"
  by (induction xs s rule: adds.induct) auto

lemma adds_fill:
  "cache_ok s \<Longrightarrow> length (current s) + length kvs \<le> threshold s + 1 \<Longrightarrow>
   distinct (map fst (current s @ kvs)) \<Longrightarrow>
   current (adds kvs s) = current s @ kvs \<and> other (adds kvs s) = other s \<and>
   currentIndex (adds kvs s) = currentIndex s \<and> otherIndex (adds kvs s) = otherIndex s"
proof (induction kvs s rule: adds.induct)
  case (1 s)
  then show ?case by simp
next
  case (2 k v ops s)
  have nr: "\<not> rotates s" using "2.prems"(2) by (simp add: rotates_def)
  have fr: "k \<notin> fst ` set (current s)" using "2.prems"(3) by simp
  note st = current_add_plain [OF "2.prems"(1) nr, of k v]
  have cur: "current (add k v s) = current s @ [(k, v)]"
    using st(1) fr by (simp add: update_fresh_key)
  have ok': "cache_ok (add k v s)" by (rule cache_ok_add [OF "2.prems"(1)])
  have len': "length (current (add k v s)) + length ops \<le> threshold (add k v s) + 1"
    using "2.prems"(2) cur by simp
  have dist': "distinct (map fst (current (add k v s) @ ops))"
    using "2.prems"(3) cur by simp
  from "2.IH" [OF ok' len' dist'] cur st show ?case by simp
qed

lemma length_fresh [simp]: "length (fresh k n v) = n"
  by (induction k n v rule: fresh.induct) auto

lemma keys_fresh: "fst ` set (fresh k n v) = {k ..< k + int n}"
  by (induction k n v rule: fresh.induct) auto

lemma distinct_fresh: "distinct (map fst (fresh k n v))"
  by (induction k n v rule: fresh.induct) (auto simp: keys_fresh)

lemma fresh_add: "fresh k (m + n) v = fresh k m v @ fresh (k + int m) n v"
  by (induction k m v rule: fresh.induct) (auto simp: algebra_simps)

lemma threshold_new [simp]: "threshold new_StoredMessages = 200"
  by (simp add: new_StoredMessages_def)

lemma current_new [simp]: "current new_StoredMessages = []"
  by (simp add: new_StoredMessages_def current_def)

lemma other_new [simp]: "other new_StoredMessages = []"
  by (simp add: new_StoredMessages_def other_def)

lemma cache_ok_history: "cache_ok (adds ops new_StoredMessages)"
  by (rule cache_ok_adds [OF cache_ok_new])

lemma history_sizes:
  "length (current (adds ops new_StoredMessages)) \<le> 201"
  "length (other (adds ops new_StoredMessages)) \<le> 201"
  using cache_ok_history [of ops] by (simp_all add: cache_ok_def)

lemma data_two:
  assumes "cache_ok s"
  shows "(data s ! 0 = current s \<and> data s ! 1 = other s) \<or>
         (data s ! 0 = other s \<and> data s ! 1 = current s)"
proof -
  have "currentIndex s < 2" "otherIndex s < 2" "currentIndex s \<noteq> otherIndex s"
    using assms by (simp_all add: cache_ok_def)
  then have "(currentIndex s = 0 \<and> otherIndex s = 1) \<or> (currentIndex s = 1 \<and> otherIndex s = 0)"
    by arith
  then show ?thesis by (auto simp: current_def other_def)
qed

lemma add_swaps_iff:
  assumes "cache_ok s"
  shows "(currentIndex (add k v s) \<noteq> currentIndex s) = rotates s"
proof (cases "rotates s")
  case True
  with current_add_rotating(3) [OF assms True, of k v] assms show ?thesis
    by (simp add: cache_ok_def)
next
  case False
  with current_add_plain(3) [OF assms False, of k v] show ?thesis by simp
qed

lemma rotation_free_keeps:
  "cache_ok s \<Longrightarrow> rotation_free ops s \<Longrightarrow>
   other (adds ops s) = other s \<and> currentIndex (adds ops s) = currentIndex s"
proof (induction ops s rule: adds.induct)
  case (1 s)
  then show ?case by simp
next
  case (2 k v ops s)
  have nr: "\<not> rotates s" and rf: "rotation_free ops (add k v s)"
    using "2.prems"(2) by simp_all
  from "2.IH" [OF cache_ok_add [OF "2.prems"(1)] rf]
    current_add_plain(2,3) [OF "2.prems"(1) nr, of k v]
  show ?case by simp
qed

lemma rotation_free_short:
  "cache_ok s \<Longrightarrow> length (current s) + length ops \<le> threshold s + 1 \<Longrightarrow>
   rotation_free ops s"
proof (induction ops s rule: adds.induct)
  case (1 s)
  then show ?case by simp
next
  case (2 k v ops s)
  have nr: "\<not> rotates s" using "2.prems"(2) by (simp add: rotates_def)
  have "length (current (add k v s)) \<le> Suc (length (current s))"
    using current_add_plain(1) [OF "2.prems"(1) nr, of k v] length_update_le [of k v "current s"]
    by simp
  then have "length (current (add k v s)) + length ops \<le> threshold (add k v s) + 1"
    using "2.prems"(2) by simp
  from "2.IH" [OF cache_ok_add [OF "2.prems"(1)] this] nr show ?case by simp
qed

lemma fill_new:
  assumes "distinct (map fst kvs)" "length kvs \<le> 201"
  shows "current (adds kvs new_StoredMessages) = kvs"
    "other (adds kvs new_StoredMessages) = []"
  using adds_fill [OF cache_ok_new, of kvs] assms by simp_all

text \<open>
  C5, as the code has it: after any sequence of \<open>add\<close> calls on a new cache the current
  generation holds at most \<open>threshold + 1 = 201\<close> entries. An \<open>add\<close> that finds more
  than 200 entries in the current generation rotates first: the entry lands alone in the
  cleared generation and the former current generation becomes the other one. An
  \<open>add\<close> that finds at most 200 entries inserts into the current generation and leaves
  the other generation alone.
\<close>

theorem current_size_bound:
  "length (current (adds ops new_StoredMessages)) \<le> 201 \<and>
   (if 200 < length (current (adds ops new_StoredMessages))
    then current (add k v (adds ops new_StoredMessages)) = [(k, v)] \<and>
         other (add k v (adds ops new_StoredMessages)) = current (adds ops new_StoredMessages)
    else current (add k v (adds ops new_StoredMessages)) =
           AList.update k v (current (adds ops new_StoredMessages)) \<and>
         other (add k v (adds ops new_StoredMessages)) = other (adds ops new_StoredMessages))"
proof (cases "rotates (adds ops new_StoredMessages)")
  case True
  then have "200 < length (current (adds ops new_StoredMessages))"
    by (simp add: rotates_def)
  with current_add_rotating(1,2) [OF cache_ok_history True, of k v] history_sizes(1) [of ops]
  show ?thesis by simp
next
  case False
  then have "\<not> 200 < length (current (adds ops new_StoredMessages))"
    by (simp add: rotates_def)
  with current_add_plain(1,2) [OF cache_ok_history False, of k v] history_sizes(1) [of ops]
  show ?thesis by simp
qed

text \<open>
  C5 as stated fails: after 201 inserts of distinct keys into a new cache the current
  generation holds 201 entries, more than the threshold of 200.
\<close>

theorem current_size_exceeds_threshold:
  "\<not> length (current (adds (fresh 0 201 \<lparr>id_msg = 0, author = 0\<rparr>) new_StoredMessages)) \<le> 200"
  using fill_new(1) [of "fresh 0 201 \<lparr>id_msg = 0, author = 0\<rparr>"]
  by (simp add: distinct_fresh)

text \<open>
  C7, as the code has it: after any sequence of \<open>add\<close> calls on a new cache,
  \<open>translate\<close> answers for at most \<open>2 * (threshold + 1) = 402\<close> distinct keys.
\<close>

theorem reachable_bound:
  "card (reachable (adds ops new_StoredMessages)) \<le> 402"
  using card_reachable_le [of "adds ops new_StoredMessages"] history_sizes [of ops]
  by linarith

text \<open>
  C10: after any sequence of \<open>add\<close> calls on a new cache there are two generation
  maps, each with at most \<open>threshold + 1 = 201\<close> entries; the next \<open>add\<close> swaps the
  generations exactly when the current one already holds more than 200 entries; and
  \<open>translate\<close> answers for at most \<open>2 * 201 = 402\<close> distinct keys.
\<close>

theorem generations_bound:
  "length (data (adds ops new_StoredMessages)) = 2 \<and>
   length (data (adds ops new_StoredMessages) ! 0) \<le> 201 \<and>
   length (data (adds ops new_StoredMessages) ! 1) \<le> 201 \<and>
   (currentIndex (add k v (adds ops new_StoredMessages)) \<noteq>
      currentIndex (adds ops new_StoredMessages)) =
     (200 < length (current (adds ops new_StoredMessages))) \<and>
   card (reachable (adds ops new_StoredMessages)) \<le> 2 * 201"
proof -
  let ?s = "adds ops new_StoredMessages"
  have ok: "cache_ok ?s" by (rule cache_ok_history)
  have l2: "length (data ?s) = 2" using ok by (simp add: cache_ok_def)
  have g: "length (data ?s ! 0) \<le> 201 \<and> length (data ?s ! 1) \<le> 201"
    using data_two [OF ok] history_sizes [of ops] by auto
  have sw: "(currentIndex (add k v ?s) \<noteq> currentIndex ?s) = (200 < length (current ?s))"
    using add_swaps_iff [OF ok, of k v] by (simp add: rotates_def)
  have c: "card (reachable ?s) \<le> 2 * 201"
    using card_reachable_le [of ?s] history_sizes [of ops] by linarith
  from l2 g sw c show ?thesis by blast
qed

lemma map_of_fst_image: "k \<in> fst ` set al \<Longrightarrow> \<exists>v. map_of al k = Some v"
  using map_of_eq_None_iff [of al k] by (cases "map_of al k") simp_all

text \<open>
  C6: after \<open>threshold + 1 = 201\<close> distinct keys were inserted into a new cache, the next
  insert rotates: it swaps the generations and its entry is the only one of the new
  current generation. The 201 earlier entries are the other generation, so every one of
  their keys is reachable through \<open>translate\<close>, and they stay so for as long as no
  further rotation happens, which covers at least the next 200 inserts.
\<close>

theorem rotation_after_filling:
  assumes "distinct (map fst kvs)" and "length kvs = 201"
  shows "rotates (adds kvs new_StoredMessages) \<and>
         current (add k v (adds kvs new_StoredMessages)) = [(k, v)] \<and>
         currentIndex (add k v (adds kvs new_StoredMessages)) \<noteq>
           currentIndex (adds kvs new_StoredMessages) \<and>
         other (add k v (adds kvs new_StoredMessages)) = kvs \<and>
         fst ` set kvs \<subseteq> reachable (add k v (adds kvs new_StoredMessages)) \<and>
         (rotation_free further (add k v (adds kvs new_StoredMessages)) \<longrightarrow>
            other (adds further (add k v (adds kvs new_StoredMessages))) = kvs \<and>
            fst ` set kvs \<subseteq> reachable (adds further (add k v (adds kvs new_StoredMessages)))) \<and>
         (length further \<le> 200 \<longrightarrow> rotation_free further (add k v (adds kvs new_StoredMessages)))"
proof -
  let ?s1 = "adds kvs new_StoredMessages"
  let ?s2 = "add k v ?s1"
  have ok1: "cache_ok ?s1" by (rule cache_ok_history)
  have ok2: "cache_ok ?s2" by (rule cache_ok_add [OF ok1])
  have cur1: "current ?s1 = kvs" using fill_new(1) [OF assms(1)] assms(2) by simp
  have rot: "rotates ?s1" using cur1 assms(2) by (simp add: rotates_def)
  note st = current_add_rotating [OF ok1 rot, of k v]
  have cur2: "current ?s2 = [(k, v)]" by (rule st(1))
  have oth2: "other ?s2 = kvs" using st(2) cur1 by simp
  have idx: "currentIndex ?s2 \<noteq> currentIndex ?s1"
    using st(3) ok1 by (simp add: cache_ok_def)
  have r2: "fst ` set kvs \<subseteq> reachable ?s2"
    by (simp add: reachable_keys oth2)
  have lat: "other (adds further ?s2) = kvs \<and> fst ` set kvs \<subseteq> reachable (adds further ?s2)"
    if "rotation_free further ?s2"
  proof -
    have "other (adds further ?s2) = kvs"
      using rotation_free_keeps [OF ok2 that] oth2 by simp
    then show ?thesis by (simp add: reachable_keys)
  qed
  have short: "rotation_free further ?s2" if "length further \<le> 200"
    using rotation_free_short [OF ok2, of further] that cur2 by simp
  from rot cur2 idx oth2 r2 lat short show ?thesis by blast
qed

text \<open>C6 at the keys \<open>0, \<dots>, 200\<close>, followed by inserts of the keys 500 and 501.\<close>

theorem rotation_after_filling_witness:
  "distinct (map fst (fresh 0 201 \<lparr>id_msg = 7, author = 1\<rparr>)) \<and>
   length (fresh 0 201 \<lparr>id_msg = 7, author = 1\<rparr>) = 201 \<and>
   rotation_free [(501, \<lparr>id_msg = 9, author = 3\<rparr>)]
     (add 500 \<lparr>id_msg = 8, author = 2\<rparr>
        (adds (fresh 0 201 \<lparr>id_msg = 7, author = 1\<rparr>) new_StoredMessages)) \<and>
   rotates (adds (fresh 0 201 \<lparr>id_msg = 7, author = 1\<rparr>) new_StoredMessages) \<and>
   current (add 500 \<lparr>id_msg = 8, author = 2\<rparr>
        (adds (fresh 0 201 \<lparr>id_msg = 7, author = 1\<rparr>) new_StoredMessages)) =
     [(500, \<lparr>id_msg = 8, author = 2\<rparr>)] \<and>
   fst ` set (fresh 0 201 \<lparr>id_msg = 7, author = 1\<rparr>) \<subseteq>
     reachable (adds [(501, \<lparr>id_msg = 9, author = 3\<rparr>)]
       (add 500 \<lparr>id_msg = 8, author = 2\<rparr>
         (adds (fresh 0 201 \<lparr>id_msg = 7, author = 1\<rparr>) new_StoredMessages)))"
  using rotation_after_filling
      [OF distinct_fresh [of 0 201 "\<lparr>id_msg = 7, author = 1\<rparr>"]
          length_fresh [of 0 201 "\<lparr>id_msg = 7, author = 1\<rparr>"],
       where k = 500 and v = "\<lparr>id_msg = 8, author = 2\<rparr>"
         and further = "[(501, \<lparr>id_msg = 9, author = 3\<rparr>)]"]
    distinct_fresh [of 0 201 "\<lparr>id_msg = 7, author = 1\<rparr>"]
  by simp

lemma two_generations_full:
  "current (adds (fresh 0 402 v) new_StoredMessages) = fresh 201 201 v \<and>
   other (adds (fresh 0 402 v) new_StoredMessages) = fresh 0 201 v"
proof -
  let ?s1 = "adds (fresh 0 201 v) new_StoredMessages"
  let ?s2 = "add 201 v ?s1"
  have split1: "fresh 0 402 v = fresh 0 201 v @ fresh 201 201 v"
    using fresh_add [of 0 201 201 v] by simp
  have split2: "fresh 201 201 v = (201, v) # fresh 202 200 v"
    using fresh.simps(2) [of 201 200 v] by simp
  have ok1: "cache_ok ?s1" by (rule cache_ok_history)
  have ok2: "cache_ok ?s2" by (rule cache_ok_add [OF ok1])
  have cur1: "current ?s1 = fresh 0 201 v"
    using fill_new(1) [of "fresh 0 201 v"] by (simp add: distinct_fresh)
  have rot: "rotates ?s1" using cur1 by (simp add: rotates_def)
  note st = current_add_rotating [OF ok1 rot, of 201 v]
  have d: "distinct (map fst (current ?s2 @ fresh 202 200 v))"
    using distinct_fresh [of 201 201 v] st(1) split2 by simp
  have l: "length (current ?s2) + length (fresh 202 200 v) \<le> threshold ?s2 + 1"
    using st(1) by simp
  from adds_fill [OF ok2 l d] st(1,2) cur1 split2
  have "current (adds (fresh 202 200 v) ?s2) = fresh 201 201 v \<and>
        other (adds (fresh 202 200 v) ?s2) = fresh 0 201 v" by simp
  then show ?thesis by (simp add: split1 split2 adds_append)
qed

text \<open>
  C7 as stated fails: after 402 inserts of distinct keys into a new cache all 402 keys are
  reachable through \<open>translate\<close>.
\<close>

theorem more_than_400_reachable:
  "\<not> card (reachable (adds (fresh 0 402 \<lparr>id_msg = 0, author = 0\<rparr>) new_StoredMessages)) \<le> 400"
proof -
  let ?v = "\<lparr>id_msg = 0, author = 0\<rparr>"
  have "reachable (adds (fresh 0 402 ?v) new_StoredMessages) = {201 ..< 402} \<union> {0 ..< 201}"
    using two_generations_full [of ?v] by (simp add: reachable_keys keys_fresh)
  also have "\<dots> = {0 ..< 402}" by auto
  finally show ?thesis by simp
qed

section \<open>Keys of a generation are distinct\<close>

text \<open>
  The keys of a generation stay distinct, so that the length of the association list is
  the \<open>size\<close> of the map it stands for.
\<close>

lemma distinct_keys_add:
  assumes "cache_ok s" "distinct (map fst (current s))" "distinct (map fst (other s))"
  shows "distinct (map fst (current (add k v s))) \<and> distinct (map fst (other (add k v s)))"
proof (cases "rotates s")
  case True
  from current_add_rotating(1,2) [OF assms(1) True, of k v] assms(2) show ?thesis by simp
next
  case False
  from current_add_plain(1,2) [OF assms(1) False, of k v] assms(2,3) show ?thesis
    by (simp add: AList.distinct_update)
qed

lemma distinct_keys_adds:
  "cache_ok s \<Longrightarrow> distinct (map fst (current s)) \<Longrightarrow> distinct (map fst (other s)) \<Longrightarrow>
   distinct (map fst (current (adds ops s))) \<and> distinct (map fst (other (adds ops s)))"
proof (induction ops s rule: adds.induct)
  case (1 s)
  then show ?case by simp
next
  case (2 k v ops s)
  from distinct_keys_add [OF "2.prems", of k v] "2.IH" [OF cache_ok_add [OF "2.prems"(1)]]
  show ?case by simp
qed

lemma distinct_keys_history:
  "distinct (map fst (current (adds ops new_StoredMessages))) \<and>
   distinct (map fst (other (adds ops new_StoredMessages)))"
  using distinct_keys_adds [OF cache_ok_new, of ops] by simp

lemma generation_size_is_number_of_keys:
  "card (fst ` set (current (adds ops new_StoredMessages))) =
     length (current (adds ops new_StoredMessages))"
  using distinct_keys_history [of ops]
  by (metis distinct_card length_map list.set_map)

section \<open>Quote resolution\<close>

lemma resolved_quotes_Nil [simp]: "resolved_quotes c [] = []"
  by (simp add: resolved_quotes_def)

lemma resolved_quotes_Quote [simp]:
  "resolved_quotes c (Quote i # xs) =
     (case translate c i of Some v \<Rightarrow> v # resolved_quotes c xs | None \<Rightarrow> resolved_quotes c xs)"
  by (cases "translate c i") (simp_all add: resolved_quotes_def)

lemma resolved_quotes_skip [simp]:
  "\<not> is_Quote x \<Longrightarrow> resolved_quotes c (x # xs) = resolved_quotes c xs"
  by (cases x) (simp_all add: resolved_quotes_def)

lemma filter_chain_quote:
  "snd (filter_chain qq c quote n chain) =
     (case resolved_quotes c chain of [] \<Rightarrow> quote | v # vs \<Rightarrow> Some (last (v # vs)))"
proof (induction qq c quote n chain rule: filter_chain.induct)
  case (3 qq c quote n i xs)
  then show ?case
    by (cases "translate c i"; cases "resolved_quotes c xs") simp_all
qed (simp_all add: split_beta)

lemma filter_chain_no_quote:
  "x \<in> set (fst (filter_chain qq c quote n chain)) \<Longrightarrow> \<not> is_Quote x"
  by (induction qq c quote n chain rule: filter_chain.induct)
     (auto simp: split_beta split: if_splits)

lemma rewrite_segment_is_Quote [simp]:
  "is_Quote (rewrite_segment qq quote ms og gs x) = is_Quote x"
  by (cases x) (simp_all add: rewrite_segment_def Let_def)

lemma process_chain_fst:
  "fst (process_chain qq og gs g chain) =
     map (rewrite_segment qq (snd (filter_chain qq (stored g) None 0 chain)) (members g) og gs)
         (fst (filter_chain qq (stored g) None 0 chain))"
  by (simp add: process_chain_def split_beta)

lemma process_chain_snd:
  "snd (process_chain qq og gs g chain) = last_resolved (stored g) chain"
  by (simp add: process_chain_def split_beta filter_chain_quote last_resolved_def)

lemma process_chain_no_quote:
  "x \<in> set (fst (process_chain qq og gs g chain)) \<Longrightarrow> \<not> is_Quote x"
  by (auto simp: process_chain_fst dest: filter_chain_no_quote)

lemma targets_iff:
  "i \<in> set (targets fromGroup groups) \<longleftrightarrow> i < length groups \<and> group (groups ! i) \<noteq> fromGroup"
  by (auto simp: targets_def)

lemma send_calls_mem:
  assumes "(i, processed, gid, quoteId) \<in> set (send_calls qq groups msg)"
  shows "i \<in> set (targets (sender_group msg) groups)"
    and "processed = fst (process_chain qq
            (map_option (nth groups) (originalIndex (sender_group msg) groups))
            groups (groups ! i) (messageChain msg))"
    and "gid = group (groups ! i)"
    and "quoteId = map_option id_msg (snd (process_chain qq
            (map_option (nth groups) (originalIndex (sender_group msg) groups))
            groups (groups ! i) (messageChain msg)))"
  using assms by (auto simp: send_calls_def send_call_def Let_def split_beta)

lemma on_GroupMessage_calls:
  assumes "on_GroupMessage qq send groups msg = Inr (groups', calls)"
  shows "calls = [] \<or> calls = send_calls qq groups msg"
  using assms
  by (auto simp: on_GroupMessage_def
        split: option.splits list.splits SingleMessage.splits sum.splits)

text \<open>
  C1, as the code has it: whenever the handler relays a message, every call of
  \<open>sendGroupMessage\<close> goes to a configured group other than the source group, its chain
  holds no quote segment, and the message it replies to is the one that the last
  resolving quote segment of the inbound chain translates to in the identity cache of the
  destination group (not of the source group). A quote id that the cache does not know
  changes nothing, and the rewriting raises no error.
\<close>

theorem quote_resolution:
  assumes "on_GroupMessage qq send groups msg = Inr (groups', calls)"
    and "(i, processed, gid, quoteId) \<in> set calls"
  shows "i < length groups \<and> group (groups ! i) \<noteq> sender_group msg \<and>
         gid = group (groups ! i) \<and>
         (\<forall>x \<in> set processed. \<not> is_Quote x) \<and>
         quoteId = map_option id_msg (last_resolved (stored (groups ! i)) (messageChain msg))"
proof -
  from on_GroupMessage_calls [OF assms(1)] assms(2)
  have mem: "(i, processed, gid, quoteId) \<in> set (send_calls qq groups msg)" by auto
  note f = send_calls_mem [OF mem]
  from f(1) have "i < length groups \<and> group (groups ! i) \<noteq> sender_group msg"
    by (simp add: targets_iff)
  moreover have "\<forall>x \<in> set processed. \<not> is_Quote x"
    using f(2) process_chain_no_quote by blast
  moreover have "quoteId = map_option id_msg (last_resolved (stored (groups ! i)) (messageChain msg))"
    using f(4) by (simp add: process_chain_snd)
  ultimately show ?thesis using f(3) by blast
qed

lemma upt2: "[0 ..< 2] = [0, 1]" by (simp add: upt_rec)

lemmas relay_defs = on_GroupMessage_def originalIndex_def targets_def send_calls_def
  send_call_def process_chain_def results_def relay_to_def warn_completes_def
  store_add_def sent_ids_def failing_at_def upt2

lemma translate_add_new [simp]:
  "translate (add k v new_StoredMessages) k' = (if k' = k then Some v else None)"
  by (simp add: translate_def add_def rotates_def current_def other_def new_StoredMessages_def)

lemma translate_new [simp]: "translate new_StoredMessages k = None"
  by (simp add: translate_def current_def other_def new_StoredMessages_def)

lemmas cache_defs = add_def rotates_def rotate_def current_def other_def
  new_StoredMessages_def translate_def

text \<open>
  C1 as stated fails. Message 50 of user 9 in group 2 was relayed into group 1 as message
  5; then a message of group 1 quotes message 5. The cache of the source group 1 does not
  know the id 5, yet the call for group 2 replies to message 50: the handler has
  translated the id in the cache of the destination.
\<close>

theorem quote_resolved_in_destination_cache:
  "translate (add 50 \<lparr>id_msg = 5, author = 9\<rparr> new_StoredMessages) 5 = None \<and>
   send_calls 99
     [\<lparr>group = 1, members = Map.empty,
        stored = add 50 \<lparr>id_msg = 5, author = 9\<rparr> new_StoredMessages\<rparr>,
      \<lparr>group = 2, members = Map.empty,
        stored = add 5 \<lparr>id_msg = 50, author = 9\<rparr> new_StoredMessages\<rparr>]
     \<lparr>sender_group = 1, sender_id = 3, messageChain = [Source 10, Quote 5, Plain ''re'']\<rparr>
   = [(1, [Source 10, Plain ''re''], 2, Some 50)]"
  by (simp add: relay_defs rewrite_segment_def)

text \<open>
  C1 on that reply, sent to group 2 with the sent id 77.
\<close>

theorem quote_resolution_witness:
  "on_GroupMessage 99 (sent_ids 76)
     [\<lparr>group = 1, members = Map.empty,
        stored = add 50 \<lparr>id_msg = 5, author = 9\<rparr> new_StoredMessages\<rparr>,
      \<lparr>group = 2, members = Map.empty,
        stored = add 5 \<lparr>id_msg = 50, author = 9\<rparr> new_StoredMessages\<rparr>]
     \<lparr>sender_group = 1, sender_id = 3, messageChain = [Source 10, Quote 5, Plain ''re'']\<rparr>
   = Inr ([\<lparr>group = 1, members = Map.empty,
            stored = add 77 \<lparr>id_msg = 10, author = 3\<rparr>
                       (add 50 \<lparr>id_msg = 5, author = 9\<rparr> new_StoredMessages)\<rparr>,
           \<lparr>group = 2, members = Map.empty,
            stored = add 10 \<lparr>id_msg = 77, author = 3\<rparr>
                       (add 5 \<lparr>id_msg = 50, author = 9\<rparr> new_StoredMessages)\<rparr>],
          [(1, [Source 10, Plain ''re''], 2, Some 50)]) \<and>
   Some (50 :: int) = map_option id_msg
     (last_resolved (add 5 \<lparr>id_msg = 50, author = 9\<rparr> new_StoredMessages)
        [Source 10, Quote 5, Plain ''re''])"
proof -
  let ?gs = "[\<lparr>group = 1, members = Map.empty,
        stored = add 50 \<lparr>id_msg = 5, author = 9\<rparr> new_StoredMessages\<rparr>,
      \<lparr>group = 2, members = Map.empty,
        stored = add 5 \<lparr>id_msg = 50, author = 9\<rparr> new_StoredMessages\<rparr>]"
  let ?msg = "\<lparr>sender_group = 1, sender_id = 3,
      messageChain = [Source 10, Quote 5, Plain ''re'']\<rparr>"
  let ?gs' = "[\<lparr>group = 1, members = Map.empty,
            stored = add 77 \<lparr>id_msg = 10, author = 3\<rparr>
                       (add 50 \<lparr>id_msg = 5, author = 9\<rparr> new_StoredMessages)\<rparr>,
           \<lparr>group = 2, members = Map.empty,
            stored = add 10 \<lparr>id_msg = 77, author = 3\<rparr>
                       (add 5 \<lparr>id_msg = 50, author = 9\<rparr> new_StoredMessages)\<rparr>]"
  have run: "on_GroupMessage 99 (sent_ids 76) ?gs ?msg =
      Inr (?gs', [(1, [Source 10, Plain ''re''], 2, Some 50)])"
    by (simp add: relay_defs rewrite_segment_def)
  have mem: "(1, [Source 10, Plain ''re''], 2, Some 50) \<in>
      set [(1 :: nat, [Source 10, Plain ''re''], 2 :: int, Some (50 :: int))]" by simp
  from quote_resolution [OF run mem] run show ?thesis by simp
qed

section \<open>Mentions of the relay itself\<close>

lemma is_self_simps [simp]:
  "is_self qq (At t d) = (t = qq)" "is_self qq (Quote i) = False"
  "is_self qq (Source i) = False" "is_self qq (Plain s) = False" "is_self qq (Other s) = False"
  by (simp_all add: is_self_def)

lemma resolves_simps [simp]:
  "resolves c (At t d) = False" "resolves c (Quote i) = (translate c i \<noteq> None)"
  "resolves c (Source i) = False" "resolves c (Plain s) = False" "resolves c (Other s) = False"
  by (simp_all add: resolves_def)

lemma filter_chain_self_after:
  "quote \<noteq> None \<Longrightarrow>
   filter (is_self qq) (fst (filter_chain qq c quote n chain)) =
     (if n = 0 then take 1 (filter (is_self qq) chain) else [])"
proof (induction qq c quote n chain rule: filter_chain.induct)
  case (3 qq c quote n i xs)
  then show ?case by (cases "translate c i") simp_all
next
  case (2 qq c quote n target display xs)
  then show ?case by (auto simp: split_beta)
qed (simp_all add: split_beta)

lemma filter_chain_self_before:
  "filter (is_self qq) (fst (filter_chain qq c None 0 chain)) =
     filter (is_self qq) (takeWhile (\<lambda>x. \<not> resolves c x) chain) @
     take 1 (filter (is_self qq) (dropWhile (\<lambda>x. \<not> resolves c x) chain))"
proof (induction chain)
  case Nil
  show ?case by simp
next
  case (Cons x xs)
  show ?case
  proof (cases x)
    case (Quote i)
    show ?thesis
    proof (cases "translate c i")
      case None
      with Quote Cons show ?thesis by simp
    next
      case (Some v)
      with Quote show ?thesis by (simp add: filter_chain_self_after)
    qed
  qed (use Cons in \<open>simp_all add: split_beta\<close>)
qed

lemma filter_chain_resolved:
  "quote \<noteq> None \<Longrightarrow> snd (filter_chain qq c quote n chain) \<noteq> None"
  by (simp add: filter_chain_quote split: list.splits)

lemma filter_chain_unresolved:
  "snd (filter_chain qq c None n chain) = None \<Longrightarrow>
   fst (filter_chain qq c None n chain) = filter (\<lambda>x. \<not> is_Quote x) chain"
proof (induction chain)
  case Nil
  show ?case by simp
next
  case (Cons x xs)
  show ?case
  proof (cases x)
    case (Quote i)
    show ?thesis
    proof (cases "translate c i")
      case None
      with Quote Cons show ?thesis by simp
    next
      case (Some v)
      with Quote Cons.prems filter_chain_resolved [of "Some v" qq c n xs]
      show ?thesis by simp
    qed
  qed (use Cons in \<open>simp_all add: split_beta\<close>)
qed

lemma rewrite_segment_no_quote:
  "rewrite_segment qq None ms og gs x =
     (case x of
        At t d \<Rightarrow> Plain (CHR ''@'' # search_name (searchFrom ms og gs) t d)
      | _ \<Rightarrow> x)"
  by (cases x) (simp_all add: rewrite_segment_def)

text \<open>
  C4, as the code has it: of the mentions of the relay's own account, the filter keeps
  every one that comes before the first quote segment that resolves, and only the first
  one of those that come after it. When no quote resolves for the destination, nothing
  but the quote segments is removed, and every mention, the mentions of the relay
  included, is forwarded as the text \<open>@name\<close>.
\<close>

theorem self_mentions_kept:
  "filter (is_self qq) (fst (filter_chain qq (stored g) None 0 chain)) =
     filter (is_self qq) (takeWhile (\<lambda>x. \<not> resolves (stored g) x) chain) @
     take 1 (filter (is_self qq) (dropWhile (\<lambda>x. \<not> resolves (stored g) x) chain)) \<and>
   (last_resolved (stored g) chain = None \<longrightarrow>
      fst (process_chain qq og gs g chain) =
        map (\<lambda>x. case x of
                   At t d \<Rightarrow> Plain (CHR ''@'' # search_name (searchFrom (members g) og gs) t d)
                 | _ \<Rightarrow> x)
            (filter (\<lambda>x. \<not> is_Quote x) chain))"
proof (intro conjI impI)
  show "filter (is_self qq) (fst (filter_chain qq (stored g) None 0 chain)) =
     filter (is_self qq) (takeWhile (\<lambda>x. \<not> resolves (stored g) x) chain) @
     take 1 (filter (is_self qq) (dropWhile (\<lambda>x. \<not> resolves (stored g) x) chain))"
    by (rule filter_chain_self_before)
next
  assume none: "last_resolved (stored g) chain = None"
  then have q: "snd (filter_chain qq (stored g) None 0 chain) = None"
    using process_chain_snd [of qq og gs g chain] by (simp add: process_chain_def split_beta)
  show "fst (process_chain qq og gs g chain) =
        map (\<lambda>x. case x of
                   At t d \<Rightarrow> Plain (CHR ''@'' # search_name (searchFrom (members g) og gs) t d)
                 | _ \<Rightarrow> x)
            (filter (\<lambda>x. \<not> is_Quote x) chain)"
    unfolding process_chain_fst q filter_chain_unresolved [OF q]
    by (rule map_cong [OF refl]) (simp add: rewrite_segment_no_quote)
qed

text \<open>
  C4 as stated fails: a message without a quote that mentions the relay (account 99) is
  sent on with the mention as the text \<open>@bot\<close>; the mention is not dropped.
\<close>

theorem self_mention_without_quote_forwarded:
  "send_calls 99
     [\<lparr>group = 1, members = Map.empty, stored = new_StoredMessages\<rparr>,
      \<lparr>group = 2, members = Map.empty, stored = new_StoredMessages\<rparr>]
     \<lparr>sender_group = 1, sender_id = 3,
      messageChain = [Source 10, At 99 ''bot'', Plain ''x'']\<rparr>
   = [(1, [Source 10, Plain ''@bot'', Plain ''x''], 2, None)]"
  by (simp add: relay_defs rewrite_segment_def searchFrom_def)

text \<open>
  C4 on a chain whose only quote segment does not resolve: both mentions of the relay are
  kept and forwarded as text.
\<close>

theorem self_mentions_kept_witness:
  "last_resolved (stored \<lparr>group = 2, members = Map.empty, stored = new_StoredMessages\<rparr>)
     [Source 10, Quote 6, At 99 ''a'', At 99 ''b''] = None \<and>
   filter (is_self 99)
     (fst (filter_chain 99 new_StoredMessages None 0
             [Source 10, Quote 6, At 99 ''a'', At 99 ''b''])) = [At 99 ''a'', At 99 ''b''] \<and>
   fst (process_chain 99 None []
          \<lparr>group = 2, members = Map.empty, stored = new_StoredMessages\<rparr>
          [Source 10, Quote 6, At 99 ''a'', At 99 ''b'']) =
     [Source 10, Plain ''@a'', Plain ''@b'']"
proof -
  have none: "last_resolved (stored \<lparr>group = 2, members = Map.empty, stored = new_StoredMessages\<rparr>)
     [Source 10, Quote 6, At 99 ''a'', At 99 ''b''] = None"
    by (simp add: last_resolved_def)
  from self_mentions_kept [of 99 "\<lparr>group = 2, members = Map.empty, stored = new_StoredMessages\<rparr>"
      "[Source 10, Quote 6, At 99 ''a'', At 99 ''b'']" None "[]"] none
  show ?thesis by (simp add: searchFrom_def)
qed

text \<open>
  With a quote segment that resolves, the two mentions of the relay before it are kept,
  and of the two after it only the first.
\<close>

lemma self_mentions_example:
  "fst (filter_chain 99 (add 5 \<lparr>id_msg = 50, author = 9\<rparr> new_StoredMessages) None 0
          [Source 10, At 99 ''a'', At 99 ''b'', Quote 5, At 99 ''c'', At 99 ''d'']) =
     [Source 10, At 99 ''a'', At 99 ''b'', At 99 ''c'']"
  by simp

section \<open>Rewriting of mentions\<close>

lemma search_name_Cons:
  "search_name (m # ms) t d = (if hit m t then the (m t) else search_name ms t d)"
  by (cases "m t") (simp_all add: hit_def)

lemma search_name_skip:
  "\<not> hit m t \<Longrightarrow> search_name (xs @ m # ys) t d = search_name (xs @ ys) t d"
  by (induction xs) (simp_all add: search_name_Cons del: search_name.simps(2))

lemma search_name_dup:
  "m \<in> set xs \<Longrightarrow> search_name (xs @ m # ys) t d = search_name (xs @ ys) t d"
proof (induction xs)
  case Nil
  then show ?case by simp
next
  case (Cons a xs)
  show ?case
  proof (cases "hit a t")
    case True
    then show ?thesis by (simp add: search_name_Cons del: search_name.simps(2))
  next
    case False
    show ?thesis
    proof (cases "m = a")
      case True
      with False search_name_skip [of m t xs ys d] show ?thesis
        by (simp add: search_name_Cons del: search_name.simps(2))
    next
      case False
      with Cons have "search_name (xs @ m # ys) t d = search_name (xs @ ys) t d" by simp
      then show ?thesis by (simp add: search_name_Cons del: search_name.simps(2))
    qed
  qed
qed

lemma search_name_filter:
  "(\<And>j. j \<in> set js \<Longrightarrow> \<not> P j \<Longrightarrow> f j \<in> set xs) \<Longrightarrow>
   search_name (xs @ zs @ map f js) t d = search_name (xs @ zs @ map f (filter P js)) t d"
proof (induction js arbitrary: zs)
  case Nil
  show ?case by simp
next
  case (Cons j js)
  have ih: "\<And>zs. search_name (xs @ zs @ map f js) t d =
                 search_name (xs @ zs @ map f (filter P js)) t d"
    using Cons.IH Cons.prems by simp
  show ?case
  proof (cases "P j")
    case True
    with ih [of "zs @ [f j]"] show ?thesis by simp
  next
    case False
    then have "f j \<in> set (xs @ zs)" using Cons.prems [of j] by simp
    from search_name_dup [OF this, of "map f js" t d] ih [of zs] False
    show ?thesis by simp
  qed
qed

lemma search_all_groups:
  assumes "i < length groups" "oi < length groups"
  shows "search_name (searchFrom (members (groups ! i)) (Some (groups ! oi)) groups) t d =
         search_name (members (groups ! i) # members (groups ! oi) #
                        map members (other_groups i oi groups)) t d"
proof -
  define f where "f = (\<lambda>j. members (groups ! j))"
  define xs where "xs = [members (groups ! i), members (groups ! oi)]"
  define P where "P = (\<lambda>j. j \<noteq> i \<and> j \<noteq> oi)"
  have all: "map members groups = map f [0 ..< length groups]"
    unfolding f_def by (rule nth_equalityI) simp_all
  have oth: "map members (other_groups i oi groups) = map f (filter P [0 ..< length groups])"
    unfolding f_def P_def other_groups_def by simp
  have "f j \<in> set xs" if "\<not> P j" for j
    using that unfolding f_def xs_def P_def by auto
  then have "search_name (xs @ [] @ map f [0 ..< length groups]) t d =
        search_name (xs @ [] @ map f (filter P [0 ..< length groups])) t d"
    by (intro search_name_filter)
  then have "search_name (xs @ map members groups) t d =
        search_name (xs @ map members (other_groups i oi groups)) t d"
    by (simp only: all oth append_Nil)
  then show ?thesis by (simp add: searchFrom_def xs_def)
qed

lemma first_match_Cons:
  "first_match (m # ms) t d = (case m t of Some n \<Rightarrow> n | None \<Rightarrow> first_match ms t d)"
  by (cases "m t") (simp_all add: first_match_def)

text \<open>
  The search of the code returns the first name that is not empty; where no snapshot
  holds an empty name, that is the name of the first snapshot that knows the user.
\<close>

lemma search_name_first_nonempty:
  "search_name ms t d = first_nonempty_name ms t d"
proof (induction ms)
  case Nil
  show ?case by (simp add: first_nonempty_name_def)
next
  case (Cons m ms)
  then show ?case by (cases "m t") (simp_all add: first_nonempty_name_def)
qed

lemma search_name_first_match:
  "(\<And>m. m \<in> set ms \<Longrightarrow> m t \<noteq> Some []) \<Longrightarrow> search_name ms t d = first_match ms t d"
proof (induction ms)
  case Nil
  show ?case by (simp add: first_match_def)
next
  case (Cons m ms)
  have "m t \<noteq> Some []" using Cons.prems [of m] by simp
  moreover have "search_name ms t d = first_match ms t d"
    using Cons.IH Cons.prems by simp
  ultimately show ?case by (cases "m t") (simp_all add: first_match_Cons)
qed

lemma names_nonempty_searched:
  assumes "names_nonempty groups" "i < length groups" "oi < length groups"
    and "m \<in> set (members (groups ! i) # members (groups ! oi) #
                   map members (other_groups i oi groups))"
  shows "m t \<noteq> Some []"
proof -
  have all: "members (groups ! j) t \<noteq> Some []" if "j < length groups" for j
    using assms(1) that by (simp add: names_nonempty_def list_all_length)
  from assms(4) consider "m = members (groups ! i)" | "m = members (groups ! oi)"
    | j where "j < length groups" "m = members (groups ! j)"
    by (auto simp: other_groups_def)
  then show ?thesis
    using all assms(2,3) by cases auto
qed

lemma rewrite_segment_At:
  "(t = qq \<Longrightarrow> author_nonzero quote) \<Longrightarrow>
   rewrite_segment qq quote ms og gs (At t d) =
     (if live_mention quote ms (retargeted qq quote t)
      then At (retargeted qq quote t) d
      else Plain (CHR ''@'' # search_name (searchFrom ms og gs) (retargeted qq quote t) d))"
  by (cases quote)
     (auto simp: rewrite_segment_def retargeted_def live_mention_def author_nonzero_def Let_def)

lemma rewrite_segment_rule:
  assumes "i < length groups" "oi < length groups"
    and "is_self qq x \<Longrightarrow> author_nonzero quote"
  shows "rewrite_segment qq quote (members (groups ! i)) (Some (groups ! oi)) groups x =
         mention_rule qq quote (members (groups ! i)) (members (groups ! oi))
           (map members (other_groups i oi groups)) x"
proof (cases x)
  case (At t d)
  have nz: "t = qq \<Longrightarrow> author_nonzero quote" using assms(3) At by simp
  have name: "search_name (searchFrom (members (groups ! i)) (Some (groups ! oi)) groups) u d =
              first_nonempty_name (members (groups ! i) # members (groups ! oi) #
                  map members (other_groups i oi groups)) u d" for u
    unfolding search_all_groups [OF assms(1,2)] by (rule search_name_first_nonempty)
  have "rewrite_segment qq quote (members (groups ! i)) (Some (groups ! oi)) groups (At t d) =
     (if live_mention quote (members (groups ! i)) (retargeted qq quote t)
      then At (retargeted qq quote t) d
      else Plain (CHR ''@'' #
             search_name (searchFrom (members (groups ! i)) (Some (groups ! oi)) groups)
               (retargeted qq quote t) d))"
    using nz by (rule rewrite_segment_At)
  then show ?thesis
    unfolding At name
    by (simp add: mention_rule_def)
qed (simp_all add: rewrite_segment_def mention_rule_def)

lemma filter_chain_subset:
  "x \<in> set (fst (filter_chain qq c quote n chain)) \<Longrightarrow> x \<in> set chain"
  by (induction qq c quote n chain rule: filter_chain.induct)
     (auto simp: split_beta split: if_splits)

lemma mention_rule_live:
  "mention_rule qq quote dest src others x = At u d \<Longrightarrow> live_mention quote dest u"
  by (cases x) (simp_all add: mention_rule_def split: if_splits)

lemma originalIndex_Some:
  "originalIndex fromGroup groups = Some oi \<Longrightarrow> oi < length groups \<and> group (groups ! oi) = fromGroup"
  unfolding originalIndex_def by (auto simp: find_Some_iff)

text \<open>
  C3, as the code has it, a quoted author with the id 0 being left aside where the relay
  is mentioned: the chain sent to a destination is the filtered chain with every mention
  rewritten by \<open>mention_rule\<close>. A mention of the relay is retargeted to the author of
  the quoted message; a mention is forwarded live exactly when its target is that author
  and a member of the destination group; every other mention becomes the text
  \<open>@name\<close>, where the name is the first non-empty name found in the members of the
  destination group, of the source group and of the other configured groups, in this
  order, and the display text of the mention when there is none. Hence every live
  mention in the chain that is sent targets the quoted author, who is a member of the
  destination group.
\<close>

theorem mention_rewrite:
  assumes "originalIndex (sender_group msg) groups = Some oi"
    and "(i, processed, gid, quoteId) \<in> set (send_calls qq groups msg)"
    and "list_ex (is_self qq) (messageChain msg) \<Longrightarrow>
           author_nonzero (last_resolved (stored (groups ! i)) (messageChain msg))"
  shows "processed =
           map (mention_rule qq (last_resolved (stored (groups ! i)) (messageChain msg))
                  (members (groups ! i)) (members (groups ! oi))
                  (map members (other_groups i oi groups)))
               (fst (filter_chain qq (stored (groups ! i)) None 0 (messageChain msg))) \<and>
         (\<forall>u d. At u d \<in> set processed \<longrightarrow>
            live_mention (last_resolved (stored (groups ! i)) (messageChain msg))
              (members (groups ! i)) u)"
proof -
  note f = send_calls_mem [OF assms(2)]
  have i: "i < length groups" using f(1) by (simp add: targets_iff)
  have oi: "oi < length groups" using originalIndex_Some [OF assms(1)] by simp
  have q: "snd (filter_chain qq (stored (groups ! i)) None 0 (messageChain msg)) =
           last_resolved (stored (groups ! i)) (messageChain msg)"
    using process_chain_snd [of qq None "[]" "groups ! i" "messageChain msg"]
    by (simp add: process_chain_def split_beta)
  have nz: "author_nonzero (last_resolved (stored (groups ! i)) (messageChain msg))"
    if "x \<in> set (fst (filter_chain qq (stored (groups ! i)) None 0 (messageChain msg)))"
      "is_self qq x" for x
  proof -
    have "x \<in> set (messageChain msg)" by (rule filter_chain_subset [OF that(1)])
    with that(2) have "list_ex (is_self qq) (messageChain msg)"
      by (auto simp: list_ex_iff)
    then show ?thesis by (rule assms(3))
  qed
  have eq: "processed =
           map (mention_rule qq (last_resolved (stored (groups ! i)) (messageChain msg))
                  (members (groups ! i)) (members (groups ! oi))
                  (map members (other_groups i oi groups)))
               (fst (filter_chain qq (stored (groups ! i)) None 0 (messageChain msg)))"
    unfolding f(2) assms(1) process_chain_fst q option.map
    by (rule map_cong [OF refl]) (rule rewrite_segment_rule [OF i oi nz])
  have "live_mention (last_resolved (stored (groups ! i)) (messageChain msg))
              (members (groups ! i)) u" if "At u d \<in> set processed" for u d
  proof -
    from that obtain x where
      "mention_rule qq (last_resolved (stored (groups ! i)) (messageChain msg))
                  (members (groups ! i)) (members (groups ! oi))
                  (map members (other_groups i oi groups)) x = At u d"
      unfolding eq by auto
    then show ?thesis by (rule mention_rule_live)
  qed
  with eq show ?thesis by blast
qed

text \<open>
  C3 on a reply to a relayed message: in the group of the quoted author the mention of
  the relay becomes a live mention of that author, and the mention of user 7 becomes
  text with the name that user 7 has in the source group.
\<close>

theorem mention_rewrite_witness:
  "originalIndex (sender_group quoting_msg) quoting_groups = Some 0 \<and>
   author_nonzero
     (last_resolved (stored (quoting_groups ! 1)) (messageChain quoting_msg)) \<and>
   send_calls 99 quoting_groups quoting_msg =
     [(1, [Source 10, At 5 ''relay'', Plain ''@Ann'', Plain ''ok''], 2, Some 41),
      (2, [Source 10, Plain ''@relay'', Plain ''@Annie'', Plain ''ok''], 3, None)] \<and>
   [Source 10, At 5 ''relay'', Plain ''@Ann'', Plain ''ok''] =
     map (mention_rule 99
            (last_resolved (stored (quoting_groups ! 1)) (messageChain quoting_msg))
            (members (quoting_groups ! 1)) (members (quoting_groups ! 0))
            (map members (other_groups 1 0 quoting_groups)))
         (fst (filter_chain 99 (stored (quoting_groups ! 1)) None 0
                 (messageChain quoting_msg))) \<and>
   live_mention
     (last_resolved (stored (quoting_groups ! 1)) (messageChain quoting_msg))
     (members (quoting_groups ! 1)) 5"
proof -
  have src: "originalIndex (sender_group quoting_msg) quoting_groups = Some 0"
    by (simp add: originalIndex_def quoting_groups_def quoting_msg_def)
  have calls: "send_calls 99 quoting_groups quoting_msg =
     [(1, [Source 10, At 5 ''relay'', Plain ''@Ann'', Plain ''ok''], 2, Some 41),
      (2, [Source 10, Plain ''@relay'', Plain ''@Annie'', Plain ''ok''], 3, None)]"
    by (simp add: relay_defs quoting_groups_def quoting_msg_def rewrite_segment_def
          searchFrom_def Let_def)
  have mem: "(1, [Source 10, At 5 ''relay'', Plain ''@Ann'', Plain ''ok''], 2, Some 41)
      \<in> set (send_calls 99 quoting_groups quoting_msg)"
    by (simp add: calls)
  have nz: "author_nonzero
      (last_resolved (stored (quoting_groups ! 1)) (messageChain quoting_msg))"
    by (simp add: quoting_groups_def quoting_msg_def last_resolved_def author_nonzero_def)
  from mention_rewrite [OF src mem nz] src calls nz show ?thesis by simp
qed

text \<open>
  C3 as stated fails where a snapshot holds an empty name: user 5 is a member of the
  destination group 2 with the empty name, and a member of the source group 1 with the
  name Bob. The first match, in the order of the claim, is the entry of the destination
  group; the code passes over it (\<open>if (match)\<close> is false for the empty string) and
  sends the name that the user has in the source group.
\<close>

theorem empty_name_is_not_a_match:
  "members \<lparr>group = 2, members = [5 \<mapsto> []], stored = new_StoredMessages\<rparr> 5 = Some [] \<and>
   first_match [[5 \<mapsto> []], [5 \<mapsto> ''Bob'']] 5 ''bobby'' = [] \<and>
   send_calls 99
     [\<lparr>group = 1, members = [5 \<mapsto> ''Bob''], stored = new_StoredMessages\<rparr>,
      \<lparr>group = 2, members = [5 \<mapsto> []], stored = new_StoredMessages\<rparr>]
     \<lparr>sender_group = 1, sender_id = 3,
      messageChain = [Source 10, At 5 ''bobby'']\<rparr>
   = [(1, [Source 10, Plain ''@Bob''], 2, None)]"
  by (simp add: relay_defs rewrite_segment_def searchFrom_def first_match_def)

text \<open>
  Where no snapshot holds an empty name, the first non-empty name is the first match, so
  the name is then the one that the claim states.
\<close>

lemma first_match_without_empty_names:
  assumes "names_nonempty groups" "i < length groups" "oi < length groups"
  shows "first_nonempty_name (members (groups ! i) # members (groups ! oi) #
             map members (other_groups i oi groups)) u d =
         first_match (members (groups ! i) # members (groups ! oi) #
             map members (other_groups i oi groups)) u d"
  unfolding search_name_first_nonempty [symmetric]
  by (rule search_name_first_match) (rule names_nonempty_searched [OF assms])

text \<open>
  The case that the theorem leaves aside: for a quoted author with the id 0 the
  expression \<open>quote?.author || qq\<close> is \<open>qq\<close>, so that a mention of the relay
  (account 99) keeps its target and is sent as text.
\<close>

lemma self_mention_with_author_zero:
  "send_calls 99
     [\<lparr>group = 1, members = Map.empty, stored = new_StoredMessages\<rparr>,
      \<lparr>group = 2, members = [0 \<mapsto> ''Zero'', 99 \<mapsto> ''Relay''],
        stored = add 5 \<lparr>id_msg = 50, author = 0\<rparr> new_StoredMessages\<rparr>]
     \<lparr>sender_group = 1, sender_id = 3,
      messageChain = [Source 10, Quote 5, At 99 ''bot'']\<rparr>
   = [(1, [Source 10, Plain ''@Relay''], 2, Some 50)]"
  by (simp add: relay_defs rewrite_segment_def searchFrom_def)

section \<open>The recording of mappings\<close>

lemma adds_snoc: "adds (ops @ [(k, v)]) s = add k v (adds ops s)"
  by (simp add: adds_append)

lemma length_store_add [simp]: "length (store_add i k v gs) = length gs"
  by (simp add: store_add_def)

lemma stored_store_add:
  "j < length gs \<Longrightarrow>
   stored (store_add i k v gs ! j) = (if i = j then add k v (stored (gs ! j)) else stored (gs ! j))"
  by (simp add: store_add_def nth_list_update)

lemma store_add_other: "i \<noteq> j \<Longrightarrow> store_add i k v gs ! j = gs ! j"
  by (simp add: store_add_def)

lemma length_record_others [simp]: "length (record_others t v others gs) = length gs"
  by (induction t v others gs rule: record_others.induct) simp_all

lemma stored_record_others:
  "j < length gs \<Longrightarrow>
   stored (record_others t v others gs ! j) =
     (if t = j then adds (map (\<lambda>other. (fst other, v)) others) (stored (gs ! j))
      else stored (gs ! j))"
  by (induction t v others gs rule: record_others.induct) (simp_all add: stored_store_add)

lemma record_others_other: "t \<noteq> j \<Longrightarrow> record_others t v others gs ! j = gs ! j"
  by (induction t v others gs rule: record_others.induct) (simp_all add: store_add_other)

lemma length_record_mappings [simp]:
  "length (record_mappings m a orig rs rest gs) = length gs"
  by (induction m a orig rs rest gs rule: record_mappings.induct)
     (simp_all add: Let_def split: option.splits)

lemma stored_record_mappings:
  "j < length gs \<Longrightarrow>
   stored (record_mappings m a (Some oi) rs rest gs ! j) =
     adds (concat (map (iteration_ops m a oi rs j) rest)) (stored (gs ! j))"
proof (induction rest arbitrary: gs)
  case Nil
  show ?case by simp
next
  case (Cons r rest)
  obtain s t where r: "r = (s, t)" by (cases r)
  let ?v = "\<lparr>id_msg = s, author = a\<rparr>"
  let ?g1 = "record_others t ?v (filter (\<lambda>other. snd other \<noteq> t) rs) gs"
  let ?g2 = "store_add t m ?v ?g1"
  let ?g3 = "store_add oi s \<lparr>id_msg = m, author = a\<rparr> ?g2"
  have j3: "j < length ?g3" using Cons.prems by simp
  have one: "stored (?g3 ! j) = adds (iteration_ops m a oi rs j r) (stored (gs ! j))"
    using Cons.prems
    by (simp add: r iteration_ops_def target_batch_def stored_store_add stored_record_others
          adds_snoc adds_append)
  have "stored (record_mappings m a (Some oi) rs (r # rest) gs ! j) =
        stored (record_mappings m a (Some oi) rs rest ?g3 ! j)"
    by (simp add: r Let_def)
  also have "\<dots> = adds (concat (map (iteration_ops m a oi rs j) rest)) (stored (?g3 ! j))"
    by (rule Cons.IH [OF j3])
  finally show ?case by (simp add: one adds_append)
qed

lemma record_mappings_untouched:
  "j \<notin> snd ` set rest \<Longrightarrow> j \<noteq> oi \<Longrightarrow>
   record_mappings m a (Some oi) rs rest gs ! j = gs ! j"
proof (induction rest arbitrary: gs)
  case Nil
  show ?case by simp
next
  case (Cons r rest)
  obtain s t where r: "r = (s, t)" by (cases r)
  from Cons.prems r have "t \<noteq> j" by auto
  with Cons show ?case
    by (simp add: r Let_def store_add_other record_others_other)
qed

lemma concat_single:
  "distinct (map snd rs) \<Longrightarrow> (s, t) \<in> set rs \<Longrightarrow>
   concat (map (\<lambda>r. if snd r = t then f r else []) rs) = f (s, t)"
proof (induction rs)
  case Nil
  then show ?case by simp
next
  case (Cons r rs)
  show ?case
  proof (cases "r = (s, t)")
    case True
    have "t \<notin> snd ` set rs" using Cons.prems(1) True by simp
    then have "concat (map (\<lambda>r. if snd r = t then f r else []) rs) = []"
      by (induction rs) auto
    with True show ?thesis by simp
  next
    case False
    with Cons.prems have mem: "(s, t) \<in> set rs" by simp
    then have "t \<in> snd ` set rs" by force
    with Cons.prems(1) have "snd r \<noteq> t" by auto
    with Cons.IH [OF _ mem] Cons.prems(1) show ?thesis by simp
  qed
qed

lemma target_ops:
  assumes "distinct (map snd rs)" "(s, t) \<in> set rs" "oi \<noteq> t"
  shows "concat (map (iteration_ops m a oi rs t) rs) = target_batch m a rs s t"
proof -
  have "iteration_ops m a oi rs t = (\<lambda>r. if snd r = t then target_batch m a rs (fst r) (snd r) else [])"
    using assms(3) by (auto simp: iteration_ops_def fun_eq_iff)
  then show ?thesis
    using concat_single [OF assms(1,2), of "\<lambda>r. target_batch m a rs (fst r) (snd r)"]
    by simp
qed

lemma source_ops:
  assumes "oi \<notin> snd ` set rest"
  shows "concat (map (iteration_ops m a oi rs oi) rest) = source_batch m a rest"
  using assms by (induction rest) (auto simp: iteration_ops_def source_batch_def)

lemma promise_all_Inr: "promise_all ps = Inr xs \<Longrightarrow> ps = map Inr xs"
proof (induction ps arbitrary: xs rule: promise_all.induct)
  case 1
  then show ?case by simp
next
  case (2 e ps)
  then show ?case by simp
next
  case (3 x ps)
  then show ?case by (cases "promise_all ps") auto
qed

lemma promise_all_Inl:
  "promise_all ps = Inl e \<Longrightarrow> Inl e \<in> set ps"
proof (induction ps rule: promise_all.induct)
  case 1
  then show ?case by simp
next
  case (2 e' ps)
  then show ?case by simp
next
  case (3 x ps)
  then show ?case by (cases "promise_all ps") auto
qed

lemma promise_all_rejects:
  "Inl e \<in> set ps \<Longrightarrow> \<exists>e'. promise_all ps = Inl e'"
proof (induction ps rule: promise_all.induct)
  case 1
  then show ?case by simp
next
  case (2 e' ps)
  then show ?case by simp
next
  case (3 x ps)
  then show ?case by (cases "promise_all ps") auto
qed

lemma fulfilled_values:
  "map f cs = map Inr ys \<Longrightarrow>
   List.map_filter (\<lambda>x. x) ys =
     List.map_filter (\<lambda>c. case f c of Inr r \<Rightarrow> r | Inl e \<Rightarrow> None) cs"
proof (induction cs arbitrary: ys)
  case Nil
  then show ?case by simp
next
  case (Cons c cs)
  then obtain y ys' where ys: "ys = y # ys'" "f c = Inr y" "map f cs = map Inr ys'"
    by (cases ys) auto
  with Cons.IH [of ys'] show ?case by (cases y) simp_all
qed

lemma results_completed:
  assumes "promise_all (map (relay_to send) (send_calls qq groups msg)) = Inr settled"
  shows "results qq send groups msg =
           List.map_filter (sent_by send) (send_calls qq groups msg)"
proof -
  have m: "map (relay_to send) (send_calls qq groups msg) = map Inr settled"
    by (rule promise_all_Inr [OF assms])
  have f: "(\<lambda>c. case relay_to send c of Inr r \<Rightarrow> r | Inl e \<Rightarrow> None) = sent_by send"
    by (rule ext) (simp add: sent_by_def)
  have "results qq send groups msg = List.map_filter (\<lambda>x. x) settled"
    by (simp add: results_def assms)
  also have "\<dots> = List.map_filter (\<lambda>c. case relay_to send c of Inr r \<Rightarrow> r | Inl e \<Rightarrow> None)
                    (send_calls qq groups msg)"
    by (rule fulfilled_values [OF m])
  finally show ?thesis by (simp only: f)
qed

lemma results_cases:
  "results qq send groups msg = [] \<or>
   results qq send groups msg = List.map_filter (sent_by send) (send_calls qq groups msg)"
proof (cases "promise_all (map (relay_to send) (send_calls qq groups msg))")
  case (Inl e)
  then show ?thesis by (simp add: results_def)
next
  case (Inr settled)
  then show ?thesis by (simp add: results_completed)
qed

lemma sent_by_index: "sent_by send c = Some (s, t) \<Longrightarrow> t = fst c"
  by (cases c)
     (auto simp: sent_by_def relay_to_def split: send_result.splits if_splits)

lemma map_snd_sent:
  "map snd (List.map_filter (sent_by send) cs) =
     map fst (filter (\<lambda>c. sent_by send c \<noteq> None) cs)"
proof (induction cs)
  case Nil
  show ?case by simp
next
  case (Cons c cs)
  show ?case
  proof (cases "sent_by send c")
    case None
    with Cons show ?thesis by simp
  next
    case (Some r)
    obtain s t where "r = (s, t)" by (cases r)
    with Some sent_by_index [of send c s t] Cons show ?thesis
      by simp
  qed
qed

lemma map_fst_send_calls:
  "map fst (send_calls qq groups msg) = targets (sender_group msg) groups"
  by (simp add: send_calls_def send_call_def split_beta Let_def comp_def)

lemma distinct_targets: "distinct (targets fromGroup groups)"
  by (simp add: targets_def)

lemma distinct_results: "distinct (map snd (results qq send groups msg))"
proof -
  have "distinct (map fst (send_calls qq groups msg))"
    by (simp add: map_fst_send_calls distinct_targets)
  then have "distinct (map fst (filter (\<lambda>c. sent_by send c \<noteq> None) (send_calls qq groups msg)))"
    by (rule distinct_map_filter)
  then have "distinct (map snd (List.map_filter (sent_by send) (send_calls qq groups msg)))"
    by (simp only: map_snd_sent)
  with results_cases [of qq send groups msg] show ?thesis by auto
qed

lemma set_map_filter_iff:
  "y \<in> set (List.map_filter f xs) \<longleftrightarrow> (\<exists>x \<in> set xs. f x = Some y)"
  by (induction xs) (auto split: option.splits)

lemma sent_by_Some_iff:
  "sent_by send c = Some (s, t) \<longleftrightarrow>
   (\<exists>processed gid quoteId. c = (t, processed, gid, quoteId) \<and>
      send t processed gid quoteId = Sent s)"
  by (cases c)
     (auto simp: sent_by_def relay_to_def split: send_result.splits if_splits)

text \<open>When no promise rejects, the results are the sends that succeeded.\<close>

lemma results_iff:
  assumes "promise_all (map (relay_to send) (send_calls qq groups msg)) = Inr settled"
  shows "(s, t) \<in> set (results qq send groups msg) \<longleftrightarrow>
   (\<exists>processed gid quoteId.
      (t, processed, gid, quoteId) \<in> set (send_calls qq groups msg) \<and>
      send t processed gid quoteId = Sent s)"
  unfolding results_completed [OF assms] set_map_filter_iff sent_by_Some_iff by blast

lemma results_targets:
  assumes "(s, t) \<in> set (results qq send groups msg)"
  shows "t \<in> set (targets (sender_group msg) groups)"
proof -
  from assms results_cases [of qq send groups msg]
  have "(s, t) \<in> set (List.map_filter (sent_by send) (send_calls qq groups msg))" by auto
  then obtain c where c: "c \<in> set (send_calls qq groups msg)" "sent_by send c = Some (s, t)"
    unfolding set_map_filter_iff by blast
  from sent_by_index [OF c(2)] c(1) have "t \<in> set (map fst (send_calls qq groups msg))"
    by auto
  then show ?thesis by (simp only: map_fst_send_calls)
qed

lemma length_results: "length (results qq send groups msg) \<le> length (targets (sender_group msg) groups)"
proof -
  have "length (List.map_filter (sent_by send) (send_calls qq groups msg)) =
        length (map snd (List.map_filter (sent_by send) (send_calls qq groups msg)))"
    by simp
  also have "\<dots> \<le> length (send_calls qq groups msg)"
    unfolding map_snd_sent by simp
  also have "\<dots> = length (map fst (send_calls qq groups msg))" by simp
  also have "\<dots> = length (targets (sender_group msg) groups)"
    by (simp only: map_fst_send_calls)
  finally show ?thesis using results_cases [of qq send groups msg] by auto
qed

lemma original_not_target:
  "originalIndex fromGroup groups = Some oi \<Longrightarrow> oi \<notin> set (targets fromGroup groups)"
  using originalIndex_Some [of fromGroup groups oi] by (simp add: targets_iff)

text \<open>
  A send that fails and is logged leaves the results of the other destinations as they
  are.
\<close>

lemma results_failing_at:
  assumes "promise_all (map (relay_to send) (send_calls qq groups msg)) = Inr settled"
  shows "results qq (failing_at j (ThrownValue True) send) groups msg =
     filter (\<lambda>r. snd r \<noteq> j) (results qq send groups msg)"
proof -
  let ?f = "failing_at j (ThrownValue True) send"
  have one: "relay_to ?f c =
      (if fst c = j then Inr None else relay_to send c)" for c
    by (cases c) (simp add: relay_to_def failing_at_def warn_completes_def)
  have ful: "\<exists>ys. map (relay_to ?f) cs = map Inr ys"
    if "map (relay_to send) cs = map Inr xs" for cs xs
    using that
  proof (induction cs arbitrary: xs)
    case Nil
    show ?case by simp
  next
    case (Cons c cs)
    then obtain x xs' where x: "xs = x # xs'" "relay_to send c = Inr x"
        "map (relay_to send) cs = map Inr xs'"
      by (cases xs) auto
    from Cons.IH [OF x(3)] obtain ys where "map (relay_to ?f) cs = map Inr ys" by blast
    then have "map (relay_to ?f) (c # cs) = map Inr ((if fst c = j then None else x) # ys)"
      by (simp add: one x(2))
    then show ?case by blast
  qed
  have comp: "promise_all (map Inr ys) = Inr ys" for ys :: "(int \<times> nat) option list"
    by (induction ys) simp_all
  from ful [OF promise_all_Inr [OF assms]] obtain ys where
    ys: "map (relay_to ?f) (send_calls qq groups msg) = map Inr ys" by blast
  then have fin: "promise_all (map (relay_to ?f) (send_calls qq groups msg)) = Inr ys"
    by (simp add: comp)
  have "List.map_filter (sent_by ?f) cs =
        filter (\<lambda>r. snd r \<noteq> j) (List.map_filter (sent_by send) cs)" for cs
  proof (induction cs)
    case Nil
    show ?case by simp
  next
    case (Cons c cs)
    obtain i p g q where c: "c = (i, p, g, q)" by (cases c)
    show ?case using Cons
      by (cases "send i p g q")
         (auto simp: c sent_by_def relay_to_def failing_at_def warn_completes_def)
  qed
  then show ?thesis
    by (simp only: results_completed [OF fin] results_completed [OF assms])
qed

text \<open>
  A send that throws a value that the \<open>catch\<close> block cannot log makes the handler reject,
  whatever the other sends do, and no cache is written.
\<close>

lemma unlogged_rejection_aborts:
  assumes "originalIndex (sender_group msg) groups = Some oi"
    and "messageChain msg = Source m # rest"
    and "(t, processed, gid, quoteId) \<in> set (send_calls qq groups msg)"
    and "send t processed gid quoteId = Threw e"
    and "\<not> warn_completes e"
  shows "on_GroupMessage qq send groups msg = Inl TypeError"
    and "groups_after qq send groups msg = groups"
proof -
  have "relay_to send (t, processed, gid, quoteId) = Inl TypeError"
    using assms(4,5) by (simp add: relay_to_def)
  then have "Inl TypeError \<in> set (map (relay_to send) (send_calls qq groups msg))"
    using assms(3) by force
  from promise_all_rejects [OF this] obtain e' where
    e': "promise_all (map (relay_to send) (send_calls qq groups msg)) = Inl e'" by blast
  have "e' = TypeError" by (cases e') simp
  with e' show "on_GroupMessage qq send groups msg = Inl TypeError"
    by (simp add: on_GroupMessage_def assms(1,2))
  then show "groups_after qq send groups msg = groups"
    by (simp add: groups_after_def)
qed

lemma translate_add_plain:
  assumes "cache_ok s" "\<not> rotates s"
  shows "translate (add k v s) k' = (if k' = k then Some v else translate s k')"
  using current_add_plain(1,2) [OF assms, of k v]
  by (simp add: translate_def AList.update_conv split: option.split)

lemma translate_add_rotating:
  assumes "cache_ok s" "rotates s"
  shows "translate (add k v s) k' = (if k' = k then Some v else map_of (current s) k')"
  using current_add_rotating(1,2) [OF assms, of k v]
  by (simp add: translate_def split: option.split)

lemma translate_current: "map_of (current s) k = Some v \<Longrightarrow> translate s k = Some v"
  by (simp add: translate_def)

lemma adds_retains_plain:
  "cache_ok s \<Longrightarrow> length (current s) + length ops \<le> threshold s + 1 \<Longrightarrow>
   (\<forall>p \<in> set ops. snd p = v) \<Longrightarrow> (\<forall>k \<in> K. translate s k = Some v) \<Longrightarrow>
   k \<in> K \<union> fst ` set ops \<Longrightarrow> translate (adds ops s) k = Some v"
proof (induction ops arbitrary: s K)
  case Nil
  then show ?case by simp
next
  case (Cons p ops)
  obtain k' where p: "p = (k', v)" using Cons.prems(3) by (cases p) auto
  have nr: "\<not> rotates s" using Cons.prems(2) by (simp add: rotates_def)
  have ok': "cache_ok (add k' v s)" by (rule cache_ok_add [OF Cons.prems(1)])
  have "length (current (add k' v s)) \<le> Suc (length (current s))"
    using current_add_plain(1) [OF Cons.prems(1) nr, of k' v]
      length_update_le [of k' v "current s"] by simp
  then have len': "length (current (add k' v s)) + length ops \<le> threshold (add k' v s) + 1"
    using Cons.prems(2) by simp
  have vals': "\<forall>p \<in> set ops. snd p = v" using Cons.prems(3) by simp
  have K': "\<forall>k \<in> insert k' K. translate (add k' v s) k = Some v"
    using Cons.prems(4) by (simp add: translate_add_plain [OF Cons.prems(1) nr])
  have mem': "k \<in> insert k' K \<union> fst ` set ops" using Cons.prems(5) p by auto
  from Cons.IH [OF ok' len' vals' K' mem'] show ?case by (simp add: p)
qed

lemma adds_retains_current:
  "cache_ok s \<Longrightarrow> length ops \<le> threshold s + 1 \<Longrightarrow>
   (\<forall>p \<in> set ops. snd p = v) \<Longrightarrow> (\<forall>k \<in> K. map_of (current s) k = Some v) \<Longrightarrow>
   k \<in> K \<union> fst ` set ops \<Longrightarrow> translate (adds ops s) k = Some v"
proof (induction ops arbitrary: s K)
  case Nil
  then show ?case by (simp add: translate_current)
next
  case (Cons p ops)
  obtain k' where p: "p = (k', v)" using Cons.prems(3) by (cases p) auto
  have ok': "cache_ok (add k' v s)" by (rule cache_ok_add [OF Cons.prems(1)])
  have vals': "\<forall>p \<in> set ops. snd p = v" using Cons.prems(3) by simp
  have mem': "k \<in> insert k' K \<union> fst ` set ops" using Cons.prems(5) p by auto
  show ?case
  proof (cases "rotates s")
    case True
    have len': "length (current (add k' v s)) + length ops \<le> threshold (add k' v s) + 1"
      using current_add_rotating(1) [OF Cons.prems(1) True, of k' v] Cons.prems(2) by simp
    have K': "\<forall>k \<in> insert k' K. translate (add k' v s) k = Some v"
      using Cons.prems(4) by (simp add: translate_add_rotating [OF Cons.prems(1) True])
    from adds_retains_plain [OF ok' len' vals' K' mem'] show ?thesis by (simp add: p)
  next
    case False
    have len': "length ops \<le> threshold (add k' v s) + 1" using Cons.prems(2) by simp
    have K': "\<forall>k \<in> insert k' K. map_of (current (add k' v s)) k = Some v"
      using Cons.prems(4) current_add_plain(1) [OF Cons.prems(1) False, of k' v]
      by (simp add: AList.update_conv)
    from Cons.IH [OF ok' len' vals' K' mem'] show ?thesis by (simp add: p)
  qed
qed

lemma adds_retains:
  assumes "cache_ok s" "length ops \<le> threshold s + 1" "\<forall>p \<in> set ops. snd p = v"
    "k \<in> fst ` set ops"
  shows "translate (adds ops s) k = Some v"
  using adds_retains_current [OF assms(1,2,3), of "{}" k] assms(4) by simp

lemma reachable_add: "cache_ok s \<Longrightarrow> reachable (add k v s) \<subseteq> insert k (reachable s)"
proof (cases "rotates s")
  case True
  assume "cache_ok s"
  from current_add_rotating(1,2) [OF this True, of k v] show ?thesis
    by (auto simp: reachable_keys)
next
  case False
  assume "cache_ok s"
  from current_add_plain(1,2) [OF this False, of k v] show ?thesis
    by (auto simp: reachable_keys AList.dom_update)
qed

lemma reachable_adds: "cache_ok s \<Longrightarrow> reachable (adds ops s) \<subseteq> reachable s \<union> fst ` set ops"
proof (induction ops s rule: adds.induct)
  case (1 s)
  show ?case by simp
next
  case (2 k v ops s)
  from "2.IH" [OF cache_ok_add [OF "2.prems"]] reachable_add [OF "2.prems", of k v]
  show ?case by auto
qed

lemma translate_None_adds:
  assumes "cache_ok s" "translate s k = None" "k \<notin> fst ` set ops"
  shows "translate (adds ops s) k = None"
proof -
  have "k \<notin> reachable s" using assms(2) by (simp add: reachable_def)
  with reachable_adds [OF assms(1), of ops] assms(3) have "k \<notin> reachable (adds ops s)" by blast
  then show ?thesis by (simp add: reachable_def)
qed

lemma groups_ok_nth: "groups_ok groups \<Longrightarrow> j < length groups \<Longrightarrow>
    cache_ok (stored (groups ! j)) \<and> threshold (stored (groups ! j)) = 200"
  by (simp add: groups_ok_def list_all_length)

lemma on_GroupMessage_relayed:
  assumes "on_GroupMessage qq send groups msg = Inr (groups', calls)"
    and "originalIndex (sender_group msg) groups = Some oi"
    and "messageChain msg = Source m # rest"
  shows "groups' = record_mappings m (sender_id msg) (Some oi)
            (results qq send groups msg) (results qq send groups msg) groups"
    and "calls = send_calls qq groups msg"
  using assms by (simp_all add: on_GroupMessage_def split: sum.splits)

lemma relayed_target_cache:
  assumes "originalIndex (sender_group msg) groups = Some oi"
    and "(s, t) \<in> set (results qq send groups msg)"
  shows "stored (record_mappings m a (Some oi) (results qq send groups msg)
                   (results qq send groups msg) groups ! t) =
         adds (target_batch m a (results qq send groups msg) s t) (stored (groups ! t))"
proof -
  have tt: "t \<in> set (targets (sender_group msg) groups)" by (rule results_targets [OF assms(2)])
  then have lt: "t < length groups" by (simp add: targets_iff)
  have ne: "oi \<noteq> t" using original_not_target [OF assms(1)] tt by auto
  show ?thesis
    unfolding stored_record_mappings [OF lt]
      target_ops [OF distinct_results assms(2) ne] ..
qed

lemma relayed_source_cache:
  assumes "originalIndex (sender_group msg) groups = Some oi"
  shows "stored (record_mappings m a (Some oi) (results qq send groups msg)
                   (results qq send groups msg) groups ! oi) =
         adds (source_batch m a (results qq send groups msg)) (stored (groups ! oi))"
proof -
  have lt: "oi < length groups" using originalIndex_Some [OF assms] by simp
  have "oi \<notin> snd ` set (results qq send groups msg)"
    using original_not_target [OF assms] results_targets [of _ oi qq send groups msg] by auto
  then show ?thesis
    unfolding stored_record_mappings [OF lt] by (simp add: source_ops)
qed

text \<open>
  The configuration built at startup has new caches, and the handler preserves the shape
  of the caches, so \<open>groups_ok\<close> holds in every state that the relay reaches.
\<close>

lemma groups_ok_initial:
  "list_all (\<lambda>g. stored g = new_StoredMessages) groups \<Longrightarrow> groups_ok groups"
  by (induction groups) (simp_all add: groups_ok_def cache_ok_new)

lemma groups_ok_relayed:
  assumes "groups_ok groups"
    and "on_GroupMessage qq send groups msg = Inr (groups', calls)"
  shows "groups_ok groups'"
proof (cases "originalIndex (sender_group msg) groups")
  case None
  with assms show ?thesis by (simp add: on_GroupMessage_def)
next
  case (Some oi)
  from assms(2) Some obtain m rest where chain: "messageChain msg = Source m # rest"
    by (auto simp: on_GroupMessage_def split: list.splits SingleMessage.splits sum.splits)
  note g' = on_GroupMessage_relayed(1) [OF assms(2) Some chain]
  have "cache_ok (stored (groups' ! j)) \<and> threshold (stored (groups' ! j)) = 200"
    if "j < length groups" for j
    unfolding g' stored_record_mappings [OF that]
    using groups_ok_nth [OF assms(1) that] by (simp add: cache_ok_adds)
  moreover have "length groups' = length groups" by (simp add: g')
  ultimately show ?thesis by (simp add: groups_ok_def list_all_length)
qed

text \<open>
  C2, as the code has it: after a fan-out in which at most 201 sends succeeded, the cache
  of every successful destination \<open>t\<close> translates the sent id of every other successful
  destination, and the inbound id \<open>m\<close>, to the author together with the sent id of
  \<open>t\<close> itself; the cache of the source group translates every sent id to the author
  together with \<open>m\<close>; and the cache of the source group gains no entry for \<open>m\<close> unless
  a sent id equals \<open>m\<close>.
\<close>

theorem recorded_mappings:
  assumes "groups_ok groups"
    and "on_GroupMessage qq send groups msg = Inr (groups', calls)"
    and "originalIndex (sender_group msg) groups = Some oi"
    and "messageChain msg = Source m # rest"
    and "length (results qq send groups msg) \<le> 201"
    and "(s, t) \<in> set (results qq send groups msg)"
  shows "(\<forall>s' u. (s', u) \<in> set (results qq send groups msg) \<and> u \<noteq> t \<longrightarrow>
            translate (stored (groups' ! t)) s' =
              Some \<lparr>id_msg = s, author = sender_id msg\<rparr>) \<and>
         translate (stored (groups' ! t)) m = Some \<lparr>id_msg = s, author = sender_id msg\<rparr> \<and>
         translate (stored (groups' ! oi)) s = Some \<lparr>id_msg = m, author = sender_id msg\<rparr> \<and>
         (translate (stored (groups ! oi)) m = None \<and>
          m \<notin> fst ` set (results qq send groups msg) \<longrightarrow>
            translate (stored (groups' ! oi)) m = None)"
proof -
  let ?rs = "results qq send groups msg"
  let ?a = "sender_id msg"
  let ?v = "\<lparr>id_msg = s, author = ?a\<rparr>"
  note g' = on_GroupMessage_relayed(1) [OF assms(2,3,4)]
  have tlt: "t < length groups"
    using results_targets [OF assms(6)] by (simp add: targets_iff)
  have olt: "oi < length groups" using originalIndex_Some [OF assms(3)] by simp
  note okt = groups_ok_nth [OF assms(1) tlt]
  note oko = groups_ok_nth [OF assms(1) olt]
  have tc: "stored (groups' ! t) = adds (target_batch m ?a ?rs s t) (stored (groups ! t))"
    unfolding g' by (rule relayed_target_cache [OF assms(3,6)])
  have sc: "stored (groups' ! oi) = adds (source_batch m ?a ?rs) (stored (groups ! oi))"
    unfolding g' by (rule relayed_source_cache [OF assms(3)])
  have "length (filter (\<lambda>other. snd other \<noteq> t) ?rs) < length ?rs"
    using assms(6) by (intro length_filter_less [of "(s, t)"]) simp_all
  then have tlen: "length (target_batch m ?a ?rs s t) \<le> threshold (stored (groups ! t)) + 1"
    using assms(5) okt by (simp add: target_batch_def)
  have tval: "\<forall>p \<in> set (target_batch m ?a ?rs s t). snd p = ?v"
    by (auto simp: target_batch_def)
  have slen: "length (source_batch m ?a ?rs) \<le> threshold (stored (groups ! oi)) + 1"
    using assms(5) oko by (simp add: source_batch_def)
  have sval: "\<forall>p \<in> set (source_batch m ?a ?rs). snd p = \<lparr>id_msg = m, author = ?a\<rparr>"
    by (auto simp: source_batch_def)
  have c1: "translate (stored (groups' ! t)) s' = Some ?v" if "(s', u) \<in> set ?rs" "u \<noteq> t" for s' u
  proof -
    have "s' \<in> fst ` set (target_batch m ?a ?rs s t)"
      using that by (force simp: target_batch_def)
    from adds_retains [OF conjunct1 [OF okt] tlen tval this] show ?thesis by (simp add: tc)
  qed
  have c2: "translate (stored (groups' ! t)) m = Some ?v"
  proof -
    have "m \<in> fst ` set (target_batch m ?a ?rs s t)" by (simp add: target_batch_def)
    from adds_retains [OF conjunct1 [OF okt] tlen tval this] show ?thesis by (simp add: tc)
  qed
  have c3: "translate (stored (groups' ! oi)) s = Some \<lparr>id_msg = m, author = ?a\<rparr>"
  proof -
    have "s \<in> fst ` set (source_batch m ?a ?rs)"
      using assms(6) by (force simp: source_batch_def)
    from adds_retains [OF conjunct1 [OF oko] slen sval this] show ?thesis by (simp add: sc)
  qed
  have c4: "translate (stored (groups' ! oi)) m = None"
    if "translate (stored (groups ! oi)) m = None" "m \<notin> fst ` set ?rs"
  proof -
    have "fst ` set (source_batch m ?a ?rs) = fst ` set ?rs"
      by (simp add: source_batch_def image_image)
    then have "m \<notin> fst ` set (source_batch m ?a ?rs)"
      using that(2) by simp
    from translate_None_adds [OF conjunct1 [OF oko] that(1) this] show ?thesis
      by (simp add: sc)
  qed
  from c1 c2 c3 c4 show ?thesis by blast
qed

lemma example_run:
  "on_GroupMessage 99 (sent_ids 100) example_groups example_msg =
     Inr (example_relayed,
          [(1, [Source 10, Plain ''hi''], 2, None), (2, [Source 10, Plain ''hi''], 3, None)])"
  by (simp add: relay_defs example_groups_def example_msg_def example_relayed_def
        rewrite_segment_def)

lemma example_results:
  "results 99 (sent_ids 100) example_groups example_msg = [(101, 1), (102, 2)]"
  by (simp add: relay_defs example_groups_def example_msg_def rewrite_segment_def)

text \<open>
  C2 as stated fails: with the sent ids 101 for group 2 and 102 for group 3, the cache of
  group 2 translates 102 to the id 101, the copy in group 2 itself, and not to 102.
\<close>

theorem other_copy_maps_to_own_sent_id:
  "on_GroupMessage 99 (sent_ids 100) example_groups example_msg =
     Inr (example_relayed,
          [(1, [Source 10, Plain ''hi''], 2, None), (2, [Source 10, Plain ''hi''], 3, None)]) \<and>
   translate (stored (example_relayed ! 1)) 102 = Some \<lparr>id_msg = 101, author = 1\<rparr> \<and>
   translate (stored (example_relayed ! 1)) 102 \<noteq> Some \<lparr>id_msg = 102, author = 1\<rparr>"
  using example_run by (simp add: example_relayed_def cache_defs)

text \<open>
  C2 on the same fan-out.
\<close>

theorem recorded_mappings_witness:
  "groups_ok example_groups \<and>
   originalIndex (sender_group example_msg) example_groups = Some 0 \<and>
   messageChain example_msg = Source 10 # [Plain ''hi''] \<and>
   results 99 (sent_ids 100) example_groups example_msg = [(101, 1), (102, 2)] \<and>
   translate (stored (example_relayed ! 1)) 102 = Some \<lparr>id_msg = 101, author = 1\<rparr> \<and>
   translate (stored (example_relayed ! 1)) 10 = Some \<lparr>id_msg = 101, author = 1\<rparr> \<and>
   translate (stored (example_relayed ! 0)) 101 = Some \<lparr>id_msg = 10, author = 1\<rparr> \<and>
   translate (stored (example_relayed ! 0)) 10 = None"
proof -
  have ok: "groups_ok example_groups"
    by (simp add: groups_ok_def example_groups_def cache_ok_new)
  have src: "originalIndex (sender_group example_msg) example_groups = Some 0"
    by (simp add: originalIndex_def example_groups_def example_msg_def)
  have chain: "messageChain example_msg = Source 10 # [Plain ''hi'']"
    by (simp add: example_msg_def)
  have few: "length (results 99 (sent_ids 100) example_groups example_msg) \<le> 201"
    by (simp add: example_results)
  have mem: "(101, 1) \<in> set (results 99 (sent_ids 100) example_groups example_msg)"
    by (simp add: example_results)
  have before: "translate (stored (example_groups ! 0)) 10 = None"
    by (simp add: example_groups_def cache_defs)
  have aid: "sender_id example_msg = 1" by (simp add: example_msg_def)
  from recorded_mappings [OF ok example_run src chain few mem] ok src chain before
  show ?thesis by (simp add: example_results aid)
qed

text \<open>
  A fan-out that completes, that is one in which every failed send could be logged: the
  calls of \<open>sendGroupMessage\<close> do not depend on the outcome of any of them, and there is
  exactly one for each destination; the results are the sends that succeeded; the cache
  of every destination whose send succeeded receives its mappings, computed from the
  successful sends, and so does the cache of the source group; and a destination whose
  send failed is left as it was.
\<close>

lemma completed_fan_out:
  assumes "on_GroupMessage qq send groups msg = Inr (groups', calls)"
    and "originalIndex (sender_group msg) groups = Some oi"
    and "messageChain msg = Source m # rest"
  shows "calls = send_calls qq groups msg \<and>
         map fst calls = targets (sender_group msg) groups \<and>
         (\<forall>s t. (s, t) \<in> set (results qq send groups msg) \<longleftrightarrow>
            (\<exists>processed gid quoteId.
               (t, processed, gid, quoteId) \<in> set calls \<and>
               send t processed gid quoteId = Sent s)) \<and>
         (\<forall>s t. (s, t) \<in> set (results qq send groups msg) \<longrightarrow>
            stored (groups' ! t) =
              adds (target_batch m (sender_id msg) (results qq send groups msg) s t)
                   (stored (groups ! t))) \<and>
         stored (groups' ! oi) =
           adds (source_batch m (sender_id msg) (results qq send groups msg))
                (stored (groups ! oi)) \<and>
         (\<forall>t \<in> set (targets (sender_group msg) groups).
            t \<notin> snd ` set (results qq send groups msg) \<longrightarrow> groups' ! t = groups ! t)"
proof -
  let ?rs = "results qq send groups msg"
  note g' = on_GroupMessage_relayed(1) [OF assms]
  note cs = on_GroupMessage_relayed(2) [OF assms]
  from assms obtain settled where
    fin: "promise_all (map (relay_to send) (send_calls qq groups msg)) = Inr settled"
    by (auto simp: on_GroupMessage_def split: sum.splits)
  have fst: "map fst calls = targets (sender_group msg) groups"
    by (simp only: cs map_fst_send_calls)
  have rs: "(s, t) \<in> set ?rs \<longleftrightarrow>
            (\<exists>processed gid quoteId.
               (t, processed, gid, quoteId) \<in> set calls \<and>
               send t processed gid quoteId = Sent s)" for s t
    unfolding cs by (rule results_iff [OF fin])
  have tc: "stored (groups' ! t) =
              adds (target_batch m (sender_id msg) ?rs s t) (stored (groups ! t))"
    if "(s, t) \<in> set ?rs" for s t
    unfolding g' by (rule relayed_target_cache [OF assms(2) that])
  have sc: "stored (groups' ! oi) =
              adds (source_batch m (sender_id msg) ?rs) (stored (groups ! oi))"
    unfolding g' by (rule relayed_source_cache [OF assms(2)])
  have un: "groups' ! t = groups ! t"
    if "t \<in> set (targets (sender_group msg) groups)" "t \<notin> snd ` set ?rs" for t
  proof -
    have "t \<noteq> oi" using original_not_target [OF assms(2)] that(1) by auto
    then show ?thesis unfolding g' by (intro record_mappings_untouched that(2))
  qed
  from cs fst rs tc sc un show ?thesis by blast
qed

text \<open>
  C8 fails on the code. The message of the example is relayed to three destinations; the
  sends to the first and the third succeed with the sent ids 101 and 103, the send to the
  second throws. When the thrown value is \<open>undefined\<close>, the \<open>catch\<close> block itself throws
  on \<open>e.constructor\<close>, the handler rejects, and no cache holds a mapping afterwards,
  neither for the two destinations whose send succeeded nor for the source group. When
  the thrown value can be logged, the same fan-out records the mappings of the first and
  the third destination and leaves the second as it was, as the claim says.
\<close>

theorem unlogged_failure_loses_mappings:
  "send_calls 99 four_groups example_msg =
     [(1, [Source 10, Plain ''hi''], 2, None), (2, [Source 10, Plain ''hi''], 3, None),
      (3, [Source 10, Plain ''hi''], 4, None)] \<and>
   sent_by (failing_at 2 ThrownUndefined (sent_ids 100))
     (1, [Source 10, Plain ''hi''], 2, None) = Some (101, 1) \<and>
   sent_by (failing_at 2 ThrownUndefined (sent_ids 100))
     (3, [Source 10, Plain ''hi''], 4, None) = Some (103, 3) \<and>
   on_GroupMessage 99 (failing_at 2 ThrownUndefined (sent_ids 100)) four_groups example_msg =
     Inl TypeError \<and>
   groups_after 99 (failing_at 2 ThrownUndefined (sent_ids 100)) four_groups example_msg =
     four_groups \<and>
   translate (stored (four_groups ! 1)) 10 = None \<and>
   translate (stored (four_groups ! 3)) 10 = None \<and>
   translate (stored (four_groups ! 0)) 101 = None \<and>
   translate (stored (four_groups ! 0)) 103 = None \<and>
   on_GroupMessage 99 (failing_at 2 (ThrownValue True) (sent_ids 100)) four_groups example_msg =
     Inr (four_relayed,
          [(1, [Source 10, Plain ''hi''], 2, None), (2, [Source 10, Plain ''hi''], 3, None),
           (3, [Source 10, Plain ''hi''], 4, None)]) \<and>
   translate (stored (four_relayed ! 1)) 10 = Some \<lparr>id_msg = 101, author = 1\<rparr> \<and>
   translate (stored (four_relayed ! 1)) 103 = Some \<lparr>id_msg = 101, author = 1\<rparr> \<and>
   translate (stored (four_relayed ! 3)) 10 = Some \<lparr>id_msg = 103, author = 1\<rparr> \<and>
   translate (stored (four_relayed ! 3)) 101 = Some \<lparr>id_msg = 103, author = 1\<rparr> \<and>
   translate (stored (four_relayed ! 0)) 101 = Some \<lparr>id_msg = 10, author = 1\<rparr> \<and>
   translate (stored (four_relayed ! 0)) 103 = Some \<lparr>id_msg = 10, author = 1\<rparr> \<and>
   four_relayed ! 2 = four_groups ! 2"
proof -
  have calls: "send_calls 99 four_groups example_msg =
     [(1, [Source 10, Plain ''hi''], 2, None), (2, [Source 10, Plain ''hi''], 3, None),
      (3, [Source 10, Plain ''hi''], 4, None)]"
    by (simp add: relay_defs four_groups_def example_msg_def rewrite_segment_def)
  have sent1: "sent_by (failing_at 2 ThrownUndefined (sent_ids 100))
     (1, [Source 10, Plain ''hi''], 2, None) = Some (101, 1)"
    by (simp add: sent_by_def relay_to_def failing_at_def sent_ids_def)
  have sent3: "sent_by (failing_at 2 ThrownUndefined (sent_ids 100))
     (3, [Source 10, Plain ''hi''], 4, None) = Some (103, 3)"
    by (simp add: sent_by_def relay_to_def failing_at_def sent_ids_def)
  have abort: "on_GroupMessage 99 (failing_at 2 ThrownUndefined (sent_ids 100))
      four_groups example_msg = Inl TypeError"
    by (simp add: relay_defs four_groups_def example_msg_def rewrite_segment_def)
  have after: "groups_after 99 (failing_at 2 ThrownUndefined (sent_ids 100))
      four_groups example_msg = four_groups"
    by (simp add: groups_after_def abort)
  have none: "translate (stored (four_groups ! 1)) 10 = None"
    "translate (stored (four_groups ! 3)) 10 = None"
    "translate (stored (four_groups ! 0)) 101 = None"
    "translate (stored (four_groups ! 0)) 103 = None"
    by (simp_all add: four_groups_def)
  have run: "on_GroupMessage 99 (failing_at 2 (ThrownValue True) (sent_ids 100))
      four_groups example_msg =
     Inr (four_relayed,
          [(1, [Source 10, Plain ''hi''], 2, None), (2, [Source 10, Plain ''hi''], 3, None),
           (3, [Source 10, Plain ''hi''], 4, None)])"
    by (simp add: relay_defs four_groups_def example_msg_def four_relayed_def
          rewrite_segment_def)
  have some: "translate (stored (four_relayed ! 1)) 10 = Some \<lparr>id_msg = 101, author = 1\<rparr>"
    "translate (stored (four_relayed ! 1)) 103 = Some \<lparr>id_msg = 101, author = 1\<rparr>"
    "translate (stored (four_relayed ! 3)) 10 = Some \<lparr>id_msg = 103, author = 1\<rparr>"
    "translate (stored (four_relayed ! 3)) 101 = Some \<lparr>id_msg = 103, author = 1\<rparr>"
    "translate (stored (four_relayed ! 0)) 101 = Some \<lparr>id_msg = 10, author = 1\<rparr>"
    "translate (stored (four_relayed ! 0)) 103 = Some \<lparr>id_msg = 10, author = 1\<rparr>"
    by (simp_all add: four_relayed_def cache_defs)
  have same: "four_relayed ! 2 = four_groups ! 2"
    by (simp add: four_relayed_def four_groups_def)
  from calls sent1 sent3 abort after none run some same show ?thesis by blast
qed

end
